theory Spec2Isabelle
  imports Main "HOL-Library.Char_ord" "HOL-Library.List_Lexorder" "HOL-Library.AList"
begin

section \<open>The storage facade of \<open>s3_handler.py\<close>\<close>

text \<open>
  \<open>S3Handler\<close> holds two injected collaborators, a boto3 client and a boto3 resource, and
  every method is a short sequence of calls into them. The collaborators are not part of
  the module, so they are parameters of the embedding: each method of the client and of the
  resource that the module calls is a function from its arguments and the state of the
  outside world to a result (\<open>Inl\<close> an error raised by the SDK) and the next state of the
  world. The world is a type variable \<open>'w\<close>, the SDK's error conditions a type variable \<open>'e\<close>.

  Every call that the module makes is appended to a log, so that how many calls were made,
  with which arguments and in which order are facts about a run.
\<close>

subsection \<open>Requests, responses, calls\<close>

text \<open>
  The keyword arguments of \<open>list_objects_v2\<close>; an argument the call site does not pass is
  \<open>None\<close>.
\<close>

record list_request =
  Bucket :: string
  Prefix :: string
  Delimiter :: "string option"
  MaxKeys :: "nat option"
  StartAfter :: "string option"
  ContinuationToken :: "string option"

text \<open>
  The entries of the response dictionary that the module reads; an absent entry is \<open>None\<close>.
  \<open>Contents\<close> carries the \<open>'Key'\<close> of each entry and \<open>CommonPrefixes\<close> the \<open>'Prefix'\<close> of each
  entry, the only fields the module reads from them.
\<close>

record list_response =
  Contents :: "string list option"
  CommonPrefixes :: "string list option"
  IsTruncated :: "bool option"
  NextContinuationToken :: "string option"

text \<open>
  A \<open>bytes\<close> object is the list of its byte values, a Python string the list of its code
  points. Bucket names, keys, paths and tokens are strings of bytes, ordered as lists of
  bytes.
\<close>

type_synonym bytes = "nat list"
type_synonym pystr = "nat list"

datatype sdk_call =
    ObjectGet string string
  | ObjectPut string string pystr
  | ObjectCopyFrom string string string
  | ObjectDelete string string
  | BucketUploadFile string string string
  | ClientDownloadFile string string string
  | ClientHeadObject string string
  | ClientListBuckets
  | ClientListObjectsV2 list_request

datatype event = Sdk sdk_call | Makedirs string

datatype os_error = FileNotFoundError | FileExistsError | PermissionError | NotADirectoryError

datatype codec_error = LookupError | UnicodeDecodeError

datatype py_value = Str pystr | Bytes bytes

datatype 'e exn =
    SdkError 'e
  | IndexError
  | KeyError string
  | OSError os_error
  | CodecError codec_error
  | RecursionError

record ('w, 'e) client =
  download_file_c :: "string \<Rightarrow> string \<Rightarrow> string \<Rightarrow> 'w \<Rightarrow> ('e + unit) \<times> 'w"
  head_object :: "string \<Rightarrow> string \<Rightarrow> 'w \<Rightarrow> ('e + nat) \<times> 'w"
  list_buckets_c :: "'w \<Rightarrow> ('e + string list) \<times> 'w"
  list_objects_v2 :: "list_request \<Rightarrow> 'w \<Rightarrow> ('e + list_response) \<times> 'w"

record ('w, 'e) resource =
  object_get :: "string \<Rightarrow> string \<Rightarrow> 'w \<Rightarrow> ('e + bytes) \<times> 'w"
  object_put :: "string \<Rightarrow> string \<Rightarrow> pystr \<Rightarrow> 'w \<Rightarrow> ('e + unit) \<times> 'w"
  object_copy_from :: "string \<Rightarrow> string \<Rightarrow> string \<Rightarrow> 'w \<Rightarrow> ('e + unit) \<times> 'w"
  object_delete :: "string \<Rightarrow> string \<Rightarrow> 'w \<Rightarrow> ('e + unit) \<times> 'w"
  bucket_upload_file :: "string \<Rightarrow> string \<Rightarrow> string \<Rightarrow> 'w \<Rightarrow> ('e + unit) \<times> 'w"

text \<open>The two attributes that \<open>__init__\<close> sets.\<close>

record ('w, 'e) S3Handler =
  client :: "('w, 'e) client"
  resource :: "('w, 'e) resource"

text \<open>The state of a run: the outside world and the log of the calls made so far.\<close>

record 'w run =
  world :: 'w
  calls :: "event list"

text \<open>
  What the module uses of the Python runtime: \<open>os.path.exists\<close>, \<open>os.makedirs\<close>,
  \<open>bytes.decode\<close>, and the stack of the interpreter. They are parameters like the SDK.
  \<open>recursion_limit\<close> is the number of recursive calls of \<open>iterate_dirs\<close> that can be
  active inside the outermost one before the interpreter raises \<open>RecursionError\<close>: what
  its recursion limit leaves where the generator is consumed.
\<close>

record 'w runtime =
  path_exists :: "string \<Rightarrow> 'w \<Rightarrow> bool"
  makedirs :: "string \<Rightarrow> 'w \<Rightarrow> (os_error + unit) \<times> 'w"
  bytes_decode :: "string \<Rightarrow> bytes \<Rightarrow> codec_error + pystr"
  recursion_limit :: nat

definition logged :: "event \<Rightarrow> ('w \<Rightarrow> 'r \<times> 'w) \<Rightarrow> 'w run \<Rightarrow> 'r \<times> 'w run" where
  "logged ev f s =
     (case f (world s) of (r, w') \<Rightarrow> (r, \<lparr>world = w', calls = calls s @ [ev]\<rparr>))"

text \<open>An error of the SDK leaves the method as the exception it is.\<close>

definition call_sdk :: "sdk_call \<Rightarrow> ('w \<Rightarrow> ('e + 'a) \<times> 'w) \<Rightarrow> 'w run \<Rightarrow> ('e exn + 'a) \<times> 'w run" where
  "call_sdk c f s =
     (case logged (Sdk c) f s of
        (Inl e, s') \<Rightarrow> (Inl (SdkError e), s')
      | (Inr r, s') \<Rightarrow> (Inr r, s'))"

subsection \<open>Path functions of \<open>posixpath\<close>\<close>

text \<open>
  \<open>os.path.join(a, b)\<close>: a second component that starts with the separator replaces the
  first; an empty first component, or one that ends with the separator, is extended
  without a separator.
\<close>

definition os_path_join :: "string \<Rightarrow> string \<Rightarrow> string" where
  "os_path_join a b =
     (if b \<noteq> [] \<and> hd b = CHR ''/'' then b
      else if a = [] \<or> last a = CHR ''/'' then a @ b
      else a @ ''/'' @ b)"

text \<open>
  \<open>os.path.dirname(p)\<close>: the part of \<open>p\<close> up to and including its last separator, with
  the trailing separators removed unless it consists of separators only.
\<close>

definition rstrip_sep :: "string \<Rightarrow> string" where
  "rstrip_sep p = rev (dropWhile (\<lambda>c. c = CHR ''/'') (rev p))"

definition os_path_dirname :: "string \<Rightarrow> string" where
  "os_path_dirname p =
     (let head = rev (dropWhile (\<lambda>c. c \<noteq> CHR ''/'') (rev p))
      in if head \<noteq> [] \<and> head \<noteq> replicate (length head) CHR ''/'' then rstrip_sep head else head)"

subsection \<open>The single-call operations\<close>

definition read_file ::
  "'w runtime \<Rightarrow> ('w, 'e) S3Handler \<Rightarrow> string \<Rightarrow> string \<Rightarrow> string \<Rightarrow> 'w run
     \<Rightarrow> ('e exn + py_value) \<times> 'w run" where
  "read_file rt self bucket key decode s =
     (case call_sdk (ObjectGet bucket key) (object_get (resource self) bucket key) s of
        (Inl x, s') \<Rightarrow> (Inl x, s')
      | (Inr content, s') \<Rightarrow>
          if decode \<noteq> [] then
            (case bytes_decode rt decode content of
               Inl ce \<Rightarrow> (Inl (CodecError ce), s')
             | Inr decoded \<Rightarrow> (Inr (Str decoded), s'))
          else (Inr (Bytes content), s'))"

definition write_file ::
  "('w, 'e) S3Handler \<Rightarrow> string \<Rightarrow> string \<Rightarrow> pystr \<Rightarrow> 'w run \<Rightarrow> ('e exn + unit) \<times> 'w run" where
  "write_file self bucket key content s =
     call_sdk (ObjectPut bucket key content) (object_put (resource self) bucket key content) s"

definition copy_file ::
  "('w, 'e) S3Handler \<Rightarrow> string \<Rightarrow> string \<Rightarrow> string \<Rightarrow> string \<Rightarrow> 'w run
     \<Rightarrow> ('e exn + unit) \<times> 'w run" where
  "copy_file self src_bucket src_key trg_bucket trg_key s =
     (let src_full_key_path = os_path_join src_bucket src_key
      in call_sdk (ObjectCopyFrom trg_bucket trg_key src_full_key_path)
           (object_copy_from (resource self) trg_bucket trg_key src_full_key_path) s)"

definition download_file ::
  "'w runtime \<Rightarrow> ('w, 'e) S3Handler \<Rightarrow> string \<Rightarrow> string \<Rightarrow> string \<Rightarrow> 'w run
     \<Rightarrow> ('e exn + unit) \<times> 'w run" where
  "download_file rt self bucket key local_file_path s =
     (let local_dir = os_path_dirname local_file_path
      in if \<not> path_exists rt local_dir (world s) then
           (case logged (Makedirs local_dir) (makedirs rt local_dir) s of
              (Inl oe, s') \<Rightarrow> (Inl (OSError oe), s')
            | (Inr u, s') \<Rightarrow>
                call_sdk (ClientDownloadFile bucket key local_file_path)
                  (download_file_c (client self) bucket key local_file_path) s')
         else call_sdk (ClientDownloadFile bucket key local_file_path)
                (download_file_c (client self) bucket key local_file_path) s)"

definition upload_file ::
  "('w, 'e) S3Handler \<Rightarrow> string \<Rightarrow> string \<Rightarrow> string \<Rightarrow> 'w run \<Rightarrow> ('e exn + unit) \<times> 'w run" where
  "upload_file self bucket key local_file_path s =
     call_sdk (BucketUploadFile bucket local_file_path key)
       (bucket_upload_file (resource self) bucket local_file_path key) s"

definition delete_file ::
  "('w, 'e) S3Handler \<Rightarrow> string \<Rightarrow> string \<Rightarrow> 'w run \<Rightarrow> ('e exn + unit) \<times> 'w run" where
  "delete_file self bucket key s =
     call_sdk (ObjectDelete bucket key) (object_delete (resource self) bucket key) s"

definition get_file_size ::
  "('w, 'e) S3Handler \<Rightarrow> string \<Rightarrow> string \<Rightarrow> 'w run \<Rightarrow> ('e exn + nat) \<times> 'w run" where
  "get_file_size self bucket key s =
     call_sdk (ClientHeadObject bucket key) (head_object (client self) bucket key) s"

definition list_buckets ::
  "('w, 'e) S3Handler \<Rightarrow> 'w run \<Rightarrow> ('e exn + string list) \<times> 'w run" where
  "list_buckets self s = call_sdk ClientListBuckets (list_buckets_c (client self)) s"

subsection \<open>Key iteration\<close>

text \<open>
  \<open>iterate_keys\<close> is a generator. The embedding is the run of the generator when it is
  consumed to its end: the keys yielded, in order, how the run ended (\<open>Inr ()\<close> when the
  generator is exhausted, \<open>Inl\<close> the exception that left it), and the state of the run.
  The \<open>while\<close> loop may go on for ever, so the loop is a partial function and \<open>None\<close> is
  the run that never ends.

  The loop carries \<open>start_after_key\<close> and the keys yielded so far. \<open>response['IsTruncated']\<close>
  raises \<open>KeyError\<close> on a response without that entry, and \<open>keys[-1]\<close> raises \<open>IndexError\<close> on
  an empty list.
\<close>

definition keys_request :: "string \<Rightarrow> string \<Rightarrow> nat \<Rightarrow> string \<Rightarrow> list_request" where
  "keys_request bucket prefix keys_per_page start_after_key =
     \<lparr>Bucket = bucket, Prefix = prefix, Delimiter = None, MaxKeys = Some keys_per_page,
      StartAfter = Some start_after_key, ContinuationToken = None\<rparr>"

definition response_keys :: "list_response \<Rightarrow> string list" where
  "response_keys response = (case Contents response of None \<Rightarrow> [] | Some ks \<Rightarrow> ks)"

partial_function (option) iterate_keys_loop ::
  "('w, 'e) S3Handler \<Rightarrow> string \<Rightarrow> string \<Rightarrow> nat \<Rightarrow> string \<Rightarrow> string list \<Rightarrow> 'w run
     \<Rightarrow> (string list \<times> ('e exn + unit) \<times> 'w run) option" where
  "iterate_keys_loop self bucket prefix keys_per_page start_after_key yielded s =
     (case call_sdk (ClientListObjectsV2 (keys_request bucket prefix keys_per_page start_after_key))
             (list_objects_v2 (client self) (keys_request bucket prefix keys_per_page start_after_key)) s of
        (Inl x, s') \<Rightarrow> Some (yielded, Inl x, s')
      | (Inr response, s') \<Rightarrow>
          (case IsTruncated response of
             None \<Rightarrow> Some (yielded @ response_keys response, Inl (KeyError ''IsTruncated''), s')
           | Some page_exist \<Rightarrow>
               if page_exist then
                 (if response_keys response = []
                  then Some (yielded @ response_keys response, Inl IndexError, s')
                  else iterate_keys_loop self bucket prefix keys_per_page
                         (last (response_keys response)) (yielded @ response_keys response) s')
               else Some (yielded @ response_keys response, Inr (), s')))"

definition iterate_keys ::
  "('w, 'e) S3Handler \<Rightarrow> string \<Rightarrow> string \<Rightarrow> 'w run
     \<Rightarrow> (string list \<times> ('e exn + unit) \<times> 'w run) option" where
  "iterate_keys self bucket prefix s = iterate_keys_loop self bucket prefix 10000 [] [] s"

subsection \<open>Directory iteration\<close>

text \<open>
  \<open>iterate_dirs\<close> is a recursive generator: a \<open>while\<close> loop over the pages of one prefix,
  a \<open>for\<close> loop over the common prefixes of a page, and in its body a recursive
  \<open>yield from\<close>. The run is at one of two places: about to request a page (with the prefix
  and the value of \<open>continuation_token\<close>), or inside the \<open>for\<close> loop of a page (with the
  prefix, the common prefixes still to visit and the response of the page). An exception
  that leaves the recursive call leaves the caller too.

  \<open>if continuation_token:\<close> tests for the empty string, so the request carries a
  \<open>ContinuationToken\<close> exactly when the variable is not empty.

  Each recursive call is one more generator on the stack of the interpreter. The run
  carries the number of recursive calls it is inside of. \<open>yield subdir['Prefix']\<close> comes
  first; the recursive call that follows raises \<open>RecursionError\<close> when the runtime has no
  room for it, and the exception leaves every generator of the stack.
\<close>

definition dirs_request :: "string \<Rightarrow> string \<Rightarrow> string \<Rightarrow> list_request" where
  "dirs_request bucket prefix continuation_token =
     \<lparr>Bucket = bucket, Prefix = prefix, Delimiter = Some ''/'', MaxKeys = None,
      StartAfter = None,
      ContinuationToken = (if continuation_token \<noteq> [] then Some continuation_token else None)\<rparr>"

definition response_subdirs :: "list_response \<Rightarrow> string list" where
  "response_subdirs response = (case CommonPrefixes response of None \<Rightarrow> [] | Some ds \<Rightarrow> ds)"

datatype dirs_position =
    AtPage string string
  | InPage string "string list" list_response

partial_function (option) iterate_dirs_from ::
  "'w runtime \<Rightarrow> ('w, 'e) S3Handler \<Rightarrow> string \<Rightarrow> nat \<Rightarrow> dirs_position \<Rightarrow> string list \<Rightarrow> 'w run
     \<Rightarrow> (string list \<times> ('e exn + unit) \<times> 'w run) option" where
  "iterate_dirs_from rt self bucket depth pos yielded s =
     (case pos of
        AtPage prefix continuation_token \<Rightarrow>
          (case call_sdk (ClientListObjectsV2 (dirs_request bucket prefix continuation_token))
                  (list_objects_v2 (client self) (dirs_request bucket prefix continuation_token)) s of
             (Inl x, s') \<Rightarrow> Some (yielded, Inl x, s')
           | (Inr response, s') \<Rightarrow>
               iterate_dirs_from rt self bucket depth
                 (InPage prefix (response_subdirs response) response) yielded s')
      | InPage prefix subdirs response \<Rightarrow>
          (case subdirs of
             [] \<Rightarrow>
               (case NextContinuationToken response of
                  Some token \<Rightarrow> iterate_dirs_from rt self bucket depth (AtPage prefix token) yielded s
                | None \<Rightarrow> Some (yielded, Inr (), s))
           | subdir # rest \<Rightarrow>
               if recursion_limit rt \<le> depth then Some (yielded @ [subdir], Inl RecursionError, s)
               else
                 Option.bind
                   (iterate_dirs_from rt self bucket (Suc depth) (AtPage subdir []) (yielded @ [subdir]) s)
                   (\<lambda>(yielded', outcome, s').
                      case outcome of
                        Inl x \<Rightarrow> Some (yielded', Inl x, s')
                      | Inr u \<Rightarrow>
                          iterate_dirs_from rt self bucket depth (InPage prefix rest response) yielded' s')))"

definition iterate_dirs ::
  "'w runtime \<Rightarrow> ('w, 'e) S3Handler \<Rightarrow> string \<Rightarrow> string \<Rightarrow> 'w run
     \<Rightarrow> (string list \<times> ('e exn + unit) \<times> 'w run) option" where
  "iterate_dirs rt self bucket prefix s = iterate_dirs_from rt self bucket 0 (AtPage prefix []) [] s"

subsection \<open>A client that answers from a sequence of responses\<close>

text \<open>
  The \<open>n\<close>-th call of \<open>list_objects_v2\<close> is answered with the \<open>n\<close>-th element of a given
  sequence, whatever the request; the world is the number of calls answered so far.
\<close>

definition scripted :: "(nat \<Rightarrow> 'e + list_response) \<Rightarrow> (nat, 'e) S3Handler \<Rightarrow> (nat, 'e) S3Handler" where
  "scripted rs self = self\<lparr>client := (client self)\<lparr>list_objects_v2 := (\<lambda>req n. (rs n, Suc n))\<rparr>\<rparr>"

definition page_keys :: "(nat \<Rightarrow> 'e + list_response) \<Rightarrow> nat \<Rightarrow> string list" where
  "page_keys rs i = (case rs i of Inl e \<Rightarrow> [] | Inr response \<Rightarrow> response_keys response)"

definition page_truncated :: "(nat \<Rightarrow> 'e + list_response) \<Rightarrow> nat \<Rightarrow> bool option" where
  "page_truncated rs i = (case rs i of Inl e \<Rightarrow> None | Inr response \<Rightarrow> IsTruncated response)"

text \<open>The value of \<open>start_after_key\<close> at the \<open>i\<close>-th call: the last key of the page before.\<close>

definition keys_cursor :: "(nat \<Rightarrow> 'e + list_response) \<Rightarrow> nat \<Rightarrow> string" where
  "keys_cursor rs i = (if i = 0 then [] else last (page_keys rs (i - 1)))"

definition keys_calls :: "(nat \<Rightarrow> 'e + list_response) \<Rightarrow> string \<Rightarrow> string \<Rightarrow> nat \<Rightarrow> nat \<Rightarrow> event list" where
  "keys_calls rs bucket prefix k n =
     map (\<lambda>i. Sdk (ClientListObjectsV2 (keys_request bucket prefix 10000 (keys_cursor rs i)))) [k..<n]"

text \<open>A handler whose SDK is out of reach: every call fails with the same error.\<close>

definition unreachable :: "'e \<Rightarrow> ('w, 'e) S3Handler" where
  "unreachable e =
     \<lparr>client = \<lparr>download_file_c = (\<lambda>bucket key path w. (Inl e, w)),
                 head_object = (\<lambda>bucket key w. (Inl e, w)),
                 list_buckets_c = (\<lambda>w. (Inl e, w)),
                 list_objects_v2 = (\<lambda>req w. (Inl e, w))\<rparr>,
      resource = \<lparr>object_get = (\<lambda>bucket key w. (Inl e, w)),
                   object_put = (\<lambda>bucket key body w. (Inl e, w)),
                   object_copy_from = (\<lambda>bucket key source w. (Inl e, w)),
                   object_delete = (\<lambda>bucket key w. (Inl e, w)),
                   bucket_upload_file = (\<lambda>bucket path key w. (Inl e, w))\<rparr>\<rparr>"

text \<open>Two scripts: a truncated page and a final page; a page and a truncated page with no entry.\<close>

definition two_pages :: "nat \<Rightarrow> unit + list_response" where
  "two_pages i =
     (if i = 0
      then Inr \<lparr>Contents = Some [''a'', ''b''], CommonPrefixes = None, IsTruncated = Some True,
                NextContinuationToken = None\<rparr>
      else Inr \<lparr>Contents = Some [''c'', ''d''], CommonPrefixes = None, IsTruncated = Some False,
                NextContinuationToken = None\<rparr>)"

definition empty_truncated_page :: "nat \<Rightarrow> unit + list_response" where
  "empty_truncated_page i =
     (if i = 0
      then Inr \<lparr>Contents = Some [''a'', ''b''], CommonPrefixes = None, IsTruncated = Some True,
                NextContinuationToken = None\<rparr>
      else Inr \<lparr>Contents = None, CommonPrefixes = None, IsTruncated = Some True,
                NextContinuationToken = None\<rparr>)"

section \<open>A model of the storage service and of the Python runtime\<close>

text \<open>
  Claims about buckets and their keys, about what is read back after a write, and about the
  local file system need an outside world. This section gives one: an object store with the
  listing interface that the specification describes, and the few functions of the runtime.
  The handler above is then run against it, unchanged.
\<close>

subsection \<open>The body of an object\<close>

text \<open>
  A text body handed to \<open>put\<close> is stored as its UTF-8 encoding. A Python string is a list of
  code points; the encoder rejects surrogates and values outside of Unicode.
\<close>

definition is_scalar :: "nat \<Rightarrow> bool" where
  "is_scalar c = (c < 55296 \<or> (57344 \<le> c \<and> c < 1114112))"

definition utf8_encode_char :: "nat \<Rightarrow> bytes" where
  "utf8_encode_char c =
     (if c < 128 then [c]
      else if c < 2048 then [192 + c div 64, 128 + c mod 64]
      else if c < 65536 then [224 + c div 4096, 128 + (c div 64) mod 64, 128 + c mod 64]
      else [240 + c div 262144, 128 + (c div 4096) mod 64, 128 + (c div 64) mod 64, 128 + c mod 64])"

definition utf8_encode :: "pystr \<Rightarrow> bytes" where
  "utf8_encode cs = concat (map utf8_encode_char cs)"

definition continuation :: "nat \<Rightarrow> bool" where
  "continuation b = (128 \<le> b \<and> b < 192)"

fun utf8_decode :: "bytes \<Rightarrow> pystr option" where
  "utf8_decode [] = Some []"
| "utf8_decode (b # bs) =
     (if b < 128 then map_option ((#) b) (utf8_decode bs)
      else if 194 \<le> b \<and> b < 224 then
        (case bs of
           b1 # r \<Rightarrow>
             if continuation b1
             then map_option ((#) ((b - 192) * 64 + (b1 - 128))) (utf8_decode r) else None
         | _ \<Rightarrow> None)
      else if 224 \<le> b \<and> b < 240 then
        (case bs of
           b1 # b2 # r \<Rightarrow>
             if continuation b1 \<and> continuation b2
                \<and> 2048 \<le> (b - 224) * 4096 + (b1 - 128) * 64 + (b2 - 128)
                \<and> is_scalar ((b - 224) * 4096 + (b1 - 128) * 64 + (b2 - 128))
             then map_option ((#) ((b - 224) * 4096 + (b1 - 128) * 64 + (b2 - 128))) (utf8_decode r)
             else None
         | _ \<Rightarrow> None)
      else if 240 \<le> b \<and> b < 245 then
        (case bs of
           b1 # b2 # b3 # r \<Rightarrow>
             if continuation b1 \<and> continuation b2 \<and> continuation b3
                \<and> 65536 \<le> (b - 240) * 262144 + (b1 - 128) * 4096 + (b2 - 128) * 64 + (b3 - 128)
                \<and> (b - 240) * 262144 + (b1 - 128) * 4096 + (b2 - 128) * 64 + (b3 - 128) < 1114112
             then map_option ((#) ((b - 240) * 262144 + (b1 - 128) * 4096 + (b2 - 128) * 64 + (b3 - 128)))
                    (utf8_decode r)
             else None
         | _ \<Rightarrow> None)
      else None)"

subsection \<open>The runtime\<close>

text \<open>
  The world of the model: the buckets (each a list of keys with their bodies, no key twice),
  the local directories and files, and the largest number of entries that the service puts
  on one page of a listing.
\<close>

record s3_world =
  buckets :: "(string \<times> (string \<times> bytes) list) list"
  local_dirs :: "string list"
  local_files :: "(string \<times> bytes) list"
  page_limit :: nat

text \<open>
  \<open>os.path.exists\<close> is false on the empty path and \<open>os.makedirs\<close> raises \<open>FileNotFoundError\<close>
  on it. \<open>makedirs\<close> raises \<open>FileExistsError\<close> on a path that exists and
  \<open>NotADirectoryError\<close> when a part of the path is a file; otherwise it creates the
  directory and the directories above it that are missing. Paths are compared as they are
  written.
\<close>

definition python_exists :: "string \<Rightarrow> s3_world \<Rightarrow> bool" where
  "python_exists path w =
     (path \<noteq> [] \<and> (path \<in> set (local_dirs w) \<or> map_of (local_files w) path \<noteq> None))"

definition path_parents :: "string \<Rightarrow> string list" where
  "path_parents path =
     map (\<lambda>i. take i path) (filter (\<lambda>i. path ! i = CHR ''/'') [1..<length path])"

definition python_makedirs :: "string \<Rightarrow> s3_world \<Rightarrow> (os_error + unit) \<times> s3_world" where
  "python_makedirs path w =
     (if path = [] then (Inl FileNotFoundError, w)
      else if python_exists path w then (Inl FileExistsError, w)
      else if list_ex (\<lambda>parent. map_of (local_files w) parent \<noteq> None) (path_parents path)
      then (Inl NotADirectoryError, w)
      else (Inr (),
            w\<lparr>local_dirs :=
                path # filter (\<lambda>parent. parent \<notin> set (local_dirs w)) (rev (path_parents path))
                 @ local_dirs w\<rparr>))"

text \<open>
  \<open>bytes.decode\<close> with the names \<open>utf-8\<close> and \<open>utf8\<close> is the UTF-8 decoder above. The
  other codecs of the interpreter are a parameter: a function from the name and the bytes
  to the text or the error.
\<close>

definition python_decode ::
  "(string \<Rightarrow> bytes \<Rightarrow> codec_error + pystr) \<Rightarrow> string \<Rightarrow> bytes \<Rightarrow> codec_error + pystr" where
  "python_decode codecs encoding body =
     (if encoding = ''utf-8'' \<or> encoding = ''utf8'' then
        (case utf8_decode body of None \<Rightarrow> Inl UnicodeDecodeError | Some cs \<Rightarrow> Inr cs)
      else codecs encoding body)"

text \<open>The interpreter without other codecs: every other name is unknown.\<close>

definition no_codecs :: "string \<Rightarrow> bytes \<Rightarrow> codec_error + pystr" where
  "no_codecs encoding body = Inl LookupError"

text \<open>
  The recursion limit of the interpreter is 1000 frames unless the program changes it;
  the room for recursive calls of \<open>iterate_dirs\<close> is at most that.
\<close>

definition python :: "(string \<Rightarrow> bytes \<Rightarrow> codec_error + pystr) \<Rightarrow> s3_world runtime" where
  "python codecs =
     \<lparr>path_exists = python_exists, makedirs = python_makedirs,
      bytes_decode = python_decode codecs, recursion_limit = 1000\<rparr>"

subsection \<open>Objects\<close>

text \<open>
  Modelled from the spec: the object store behind the resource and the client, which the
  module calls and does not contain. A bucket holds bodies under keys; an object is read,
  written, copied, deleted, downloaded to a local file, uploaded from one and measured by
  bucket and key. A missing bucket or object is an error of the service, and so is an
  empty key.
\<close>

datatype s3_error = NoSuchBucket | NoSuchKey | InvalidArgument | BodyNotEncodable | NoSuchFile

definition s3_get :: "string \<Rightarrow> string \<Rightarrow> s3_world \<Rightarrow> (s3_error + bytes) \<times> s3_world" where
  "s3_get bucket key w =
     (case map_of (buckets w) bucket of
        None \<Rightarrow> (Inl NoSuchBucket, w)
      | Some objects \<Rightarrow>
          (case map_of objects key of
             None \<Rightarrow> (Inl NoSuchKey, w)
           | Some body \<Rightarrow> (Inr body, w)))"

definition s3_store :: "string \<Rightarrow> string \<Rightarrow> bytes \<Rightarrow> s3_world \<Rightarrow> (s3_error + unit) \<times> s3_world" where
  "s3_store bucket key body w =
     (case map_of (buckets w) bucket of
        None \<Rightarrow> (Inl NoSuchBucket, w)
      | Some objects \<Rightarrow>
          if key = [] then (Inl InvalidArgument, w)
          else (Inr (), w\<lparr>buckets := AList.update bucket (AList.update key body objects) (buckets w)\<rparr>))"

definition s3_put :: "string \<Rightarrow> string \<Rightarrow> pystr \<Rightarrow> s3_world \<Rightarrow> (s3_error + unit) \<times> s3_world" where
  "s3_put bucket key content w =
     (if list_all is_scalar content then s3_store bucket key (utf8_encode content) w
      else (Inl BodyNotEncodable, w))"

text \<open>
  A copy source names the source as bucket, separator, key; a separator in front of the
  bucket is allowed.
\<close>

definition parse_copy_source :: "string \<Rightarrow> (string \<times> string) option" where
  "parse_copy_source source =
     (let path = (if source \<noteq> [] \<and> hd source = CHR ''/'' then tl source else source);
          bucket = takeWhile (\<lambda>c. c \<noteq> CHR ''/'') path;
          rest = dropWhile (\<lambda>c. c \<noteq> CHR ''/'') path
      in if bucket = [] \<or> rest = [] \<or> tl rest = [] then None else Some (bucket, tl rest))"

definition s3_copy_from :: "string \<Rightarrow> string \<Rightarrow> string \<Rightarrow> s3_world \<Rightarrow> (s3_error + unit) \<times> s3_world" where
  "s3_copy_from bucket key source w =
     (case parse_copy_source source of
        None \<Rightarrow> (Inl InvalidArgument, w)
      | Some (src_bucket, src_key) \<Rightarrow>
          (case s3_get src_bucket src_key w of
             (Inl e, w') \<Rightarrow> (Inl e, w')
           | (Inr body, w') \<Rightarrow> s3_store bucket key body w'))"

definition s3_delete :: "string \<Rightarrow> string \<Rightarrow> s3_world \<Rightarrow> (s3_error + unit) \<times> s3_world" where
  "s3_delete bucket key w =
     (case map_of (buckets w) bucket of
        None \<Rightarrow> (Inl NoSuchBucket, w)
      | Some objects \<Rightarrow>
          (Inr (), w\<lparr>buckets := AList.update bucket (AList.delete key objects) (buckets w)\<rparr>))"

definition s3_upload_file :: "string \<Rightarrow> string \<Rightarrow> string \<Rightarrow> s3_world \<Rightarrow> (s3_error + unit) \<times> s3_world" where
  "s3_upload_file bucket path key w =
     (case map_of (local_files w) path of
        None \<Rightarrow> (Inl NoSuchFile, w)
      | Some body \<Rightarrow> s3_store bucket key body w)"

definition s3_download_file :: "string \<Rightarrow> string \<Rightarrow> string \<Rightarrow> s3_world \<Rightarrow> (s3_error + unit) \<times> s3_world" where
  "s3_download_file bucket key path w =
     (case s3_get bucket key w of
        (Inl e, w') \<Rightarrow> (Inl e, w')
      | (Inr body, w') \<Rightarrow> (Inr (), w'\<lparr>local_files := AList.update path body (local_files w')\<rparr>))"

definition s3_head_object :: "string \<Rightarrow> string \<Rightarrow> s3_world \<Rightarrow> (s3_error + nat) \<times> s3_world" where
  "s3_head_object bucket key w =
     (case s3_get bucket key w of
        (Inl e, w') \<Rightarrow> (Inl e, w')
      | (Inr body, w') \<Rightarrow> (Inr (length body), w'))"

definition s3_list_buckets :: "s3_world \<Rightarrow> (s3_error + string list) \<times> s3_world" where
  "s3_list_buckets w = (Inr (map fst (buckets w)), w)"

subsection \<open>Listing\<close>

text \<open>
  Modelled from the spec: the listing interface of the service, which the module calls and
  does not contain. The prefix selects the keys that begin with it. With a delimiter, a
  key in which the delimiter occurs after the prefix is grouped under its common prefix,
  the key up to and including the first such occurrence; the other keys are listed in
  full. With a start-after key, only the keys after it are listed. The entries come in the
  order of their names, at most a page of them per call; a response says whether it was
  truncated, and when it was, it carries a token from which the next call continues.
  The token is opaque to the caller; here it is as long as the number of entries before
  the next page.
\<close>

datatype entry = KeyEntry string | PrefixEntry string

fun entry_name :: "entry \<Rightarrow> string" where
  "entry_name (KeyEntry k) = k"
| "entry_name (PrefixEntry p) = p"

fun listed_key :: "entry \<Rightarrow> string list" where
  "listed_key (KeyEntry k) = [k]"
| "listed_key (PrefixEntry p) = []"

fun listed_prefix :: "entry \<Rightarrow> string list" where
  "listed_prefix (KeyEntry k) = []"
| "listed_prefix (PrefixEntry p) = [p]"

definition starts_with :: "string \<Rightarrow> string \<Rightarrow> bool" where
  "starts_with k p = (take (length p) k = p)"

fun upto_delimiter :: "string \<Rightarrow> string \<Rightarrow> string option" where
  "upto_delimiter d [] = None"
| "upto_delimiter d (c # cs) =
     (if starts_with (c # cs) d then Some d else map_option ((#) c) (upto_delimiter d cs))"

definition entry_of :: "string \<Rightarrow> string option \<Rightarrow> string \<Rightarrow> entry" where
  "entry_of pfx delimiter k =
     (case delimiter of
        None \<Rightarrow> KeyEntry k
      | Some d \<Rightarrow>
          if d = [] then KeyEntry k
          else (case upto_delimiter d (drop (length pfx) k) of
                  None \<Rightarrow> KeyEntry k
                | Some seg \<Rightarrow> PrefixEntry (pfx @ seg)))"

definition listing :: "string list \<Rightarrow> list_request \<Rightarrow> entry list" where
  "listing ks req =
     sort_key entry_name
       (remdups
          (map (entry_of (Prefix req) (Delimiter req))
             (filter (\<lambda>k. starts_with k (Prefix req)
                          \<and> (case StartAfter req of None \<Rightarrow> True | Some a \<Rightarrow> a < k)) ks)))"

definition token_of :: "nat \<Rightarrow> string" where
  "token_of n = replicate n CHR ''+''"

definition some_unless_empty :: "'a list \<Rightarrow> 'a list option" where
  "some_unless_empty xs = (if xs = [] then None else Some xs)"

definition s3_list_objects_v2 :: "list_request \<Rightarrow> s3_world \<Rightarrow> (s3_error + list_response) \<times> s3_world" where
  "s3_list_objects_v2 req w =
     (case map_of (buckets w) (Bucket req) of
        None \<Rightarrow> (Inl NoSuchBucket, w)
      | Some objects \<Rightarrow>
          (let entries = listing (map fst objects) req;
               seen = (case ContinuationToken req of None \<Rightarrow> 0 | Some token \<Rightarrow> length token);
               size = min (case MaxKeys req of None \<Rightarrow> 1000 | Some m \<Rightarrow> m) (page_limit w);
               page = take size (drop seen entries);
               more = (seen + size < length entries)
           in (Inr \<lparr>Contents = some_unless_empty (concat (map listed_key page)),
                     CommonPrefixes = some_unless_empty (concat (map listed_prefix page)),
                     IsTruncated = Some more,
                     NextContinuationToken = (if more then Some (token_of (seen + size)) else None)\<rparr>,
               w)))"

definition s3 :: "(s3_world, s3_error) S3Handler" where
  "s3 =
     \<lparr>client = \<lparr>download_file_c = s3_download_file, head_object = s3_head_object,
                 list_buckets_c = s3_list_buckets, list_objects_v2 = s3_list_objects_v2\<rparr>,
      resource = \<lparr>object_get = s3_get, object_put = s3_put, object_copy_from = s3_copy_from,
                   object_delete = s3_delete, bucket_upload_file = s3_upload_file\<rparr>\<rparr>"

subsection \<open>The directories under a prefix\<close>

text \<open>
  What directory iteration is to produce, said without pages: the virtual directories
  directly under a prefix are the common prefixes of the keys that begin with it, each
  once, in order; the directories under a prefix are these, each followed by the
  directories under it, depth first.
\<close>

definition subdirs_of :: "string list \<Rightarrow> string \<Rightarrow> string list" where
  "subdirs_of ks p =
     sort (remdups (concat (map (\<lambda>k. if starts_with k p
                                       then (case upto_delimiter ''/'' (drop (length p) k) of
                                               None \<Rightarrow> [] | Some seg \<Rightarrow> [p @ seg])
                                       else []) ks)))"

function dir_tree :: "string list \<Rightarrow> string \<Rightarrow> string list" where
  "dir_tree ks p = concat (map (\<lambda>d. d # dir_tree ks d) (subdirs_of ks p))"
  by pat_completeness auto
termination
proof (relation "measure (\<lambda>(ks, p). Suc (sum_list (map length ks)) - length p)")
  show "wf (measure (\<lambda>(ks, p). Suc (sum_list (map length ks)) - length p))" by simp
next
  fix ks :: "string list" and p d :: string
  assume "d \<in> set (subdirs_of ks p)"
  then obtain k seg where k: "k \<in> set ks" "starts_with k p"
      and seg: "upto_delimiter ''/'' (drop (length p) k) = Some seg" and d: "d = p @ seg"
    by (auto simp: subdirs_of_def split: if_splits option.splits) (metis)
  have upto: "upto_delimiter ''/'' r = Some s \<Longrightarrow> s \<noteq> [] \<and> length s \<le> length r" for r s
    by (induction r arbitrary: s) (auto simp: starts_with_def split: if_splits)
  from upto[OF seg] have "seg \<noteq> []" "length seg \<le> length k - length p" by simp_all
  moreover from k(2) have "length p \<le> length k"
    by (metis starts_with_def length_take min.cobounded1)
  moreover from k(1) have "length k \<le> sum_list (map length ks)"
    by (simp add: member_le_sum_list)
  ultimately show "((ks, d), (ks, p)) \<in> measure (\<lambda>(ks, p). Suc (sum_list (map length ks)) - length p)"
    using d by (cases seg) auto
qed

text \<open>The equation of \<open>dir_tree\<close> holds for every argument; it is unfolded by hand.\<close>

declare dir_tree.simps [simp del]

text \<open>
  How deep the directories under a prefix are nested: the largest number of separators
  that a key has after the prefix.
\<close>

definition dir_depth :: "string list \<Rightarrow> string \<Rightarrow> nat" where
  "dir_depth ks p =
     foldr max (map (\<lambda>k. length (filter (\<lambda>c. c = CHR ''/'') (drop (length p) k)))
                  (filter (\<lambda>k. starts_with k p) ks)) 0"

subsection \<open>Worlds and scripts to run the handler in\<close>

definition demo_world :: s3_world where
  "demo_world =
     \<lparr>buckets = [(''bucket'', [(''a/b'', [104, 105]), (''a/c'', []), (''d'', [])]),
                 (''b1'', [(''/b2/k'', [115, 114, 99])]),
                 (''b2'', [(''k'', [111, 116, 104, 101, 114])]),
                 (''t'', [])],
      local_dirs = [''data''],
      local_files = [],
      page_limit = 1000\<rparr>"

definition then_denied :: "nat \<Rightarrow> string + list_response" where
  "then_denied i =
     (if i = 0
      then Inr \<lparr>Contents = Some [''a'', ''b''], CommonPrefixes = None, IsTruncated = Some True,
                NextContinuationToken = None\<rparr>
      else Inl ''AccessDenied'')"

subsection \<open>Scripts for directory iteration\<close>

definition page_subdirs :: "(nat \<Rightarrow> 'e + list_response) \<Rightarrow> nat \<Rightarrow> string list" where
  "page_subdirs rs i = (case rs i of Inl e \<Rightarrow> [] | Inr response \<Rightarrow> response_subdirs response)"

definition page_token :: "(nat \<Rightarrow> 'e + list_response) \<Rightarrow> nat \<Rightarrow> string option" where
  "page_token rs i = (case rs i of Inl e \<Rightarrow> None | Inr response \<Rightarrow> NextContinuationToken response)"

definition is_response :: "(nat \<Rightarrow> 'e + list_response) \<Rightarrow> nat \<Rightarrow> bool" where
  "is_response rs i = (case rs i of Inl e \<Rightarrow> False | Inr response \<Rightarrow> True)"

text \<open>
  The first \<open>n\<close> calls of a run over pages without common prefixes that starts with the
  response \<open>k\<close> of the sequence and a given value of \<open>continuation_token\<close>, when each call
  after the first carries the token of the response before it.
\<close>

definition dirs_calls ::
  "(nat \<Rightarrow> 'e + list_response) \<Rightarrow> string \<Rightarrow> string \<Rightarrow> string \<Rightarrow> nat \<Rightarrow> nat \<Rightarrow> event list" where
  "dirs_calls rs bucket prefix continuation_token k n =
     map (\<lambda>i. Sdk (ClientListObjectsV2
                  (if i = 0 then dirs_request bucket prefix continuation_token
                   else \<lparr>Bucket = bucket, Prefix = prefix, Delimiter = Some ''/'', MaxKeys = None,
                         StartAfter = None, ContinuationToken = page_token rs (k + i - 1)\<rparr>))) [0..<n]"

definition token_pages :: "nat \<Rightarrow> unit + list_response" where
  "token_pages i =
     (if i = 0
      then Inr \<lparr>Contents = Some [''x''], CommonPrefixes = None, IsTruncated = Some True,
                NextContinuationToken = Some ''+''\<rparr>
      else if i = 1
      then Inr \<lparr>Contents = None, CommonPrefixes = Some [], IsTruncated = Some True,
                NextContinuationToken = Some ''++''\<rparr>
      else Inr \<lparr>Contents = Some [''y''], CommonPrefixes = None, IsTruncated = Some False,
                NextContinuationToken = None\<rparr>)"

text \<open>The same three pages as the responses 4, 5 and 6 of a longer run.\<close>

definition late_token_pages :: "nat \<Rightarrow> unit + list_response" where
  "late_token_pages i = (if i < 4 then Inl () else token_pages (i - 4))"

text \<open>
  A page with a common prefix and a token, the only page of that prefix, and then a
  failure: the call for the second page of the first prefix fails.
\<close>

definition dirs_then_denied :: "nat \<Rightarrow> string + list_response" where
  "dirs_then_denied i =
     (if i = 0
      then Inr \<lparr>Contents = None, CommonPrefixes = Some [''a/''], IsTruncated = Some True,
                NextContinuationToken = Some ''+''\<rparr>
      else if i = 1
      then Inr \<lparr>Contents = Some [''a/b''], CommonPrefixes = None, IsTruncated = Some False,
                NextContinuationToken = None\<rparr>
      else Inl ''AccessDenied'')"

text \<open>
  A runtime for the runs against a sequence of responses: no file system, no codec, and
  room for a given number of recursive calls.
\<close>

definition stack_of :: "nat \<Rightarrow> 'w runtime" where
  "stack_of limit =
     \<lparr>path_exists = (\<lambda>path w. False), makedirs = (\<lambda>path w. (Inl PermissionError, w)),
      bytes_decode = (\<lambda>encoding body. Inl LookupError), recursion_limit = limit\<rparr>"

text \<open>The value of \<open>continuation_token\<close> after \<open>i\<close> calls of such a run.\<close>

definition dirs_token :: "(nat \<Rightarrow> 'e + list_response) \<Rightarrow> string \<Rightarrow> nat \<Rightarrow> nat \<Rightarrow> string" where
  "dirs_token rs continuation_token k i =
     (if i = 0 then continuation_token
      else case page_token rs (k + i - 1) of None \<Rightarrow> [] | Some t \<Rightarrow> t)"

text \<open>A bucket with \<open>n\<close> keys: \<open>k\<close>, \<open>kk\<close>, \<open>kkk\<close> and so on.\<close>

definition many_keys :: "nat \<Rightarrow> string list" where
  "many_keys n = map (\<lambda>i. replicate (Suc i) CHR ''k'') [0..<n]"

definition big_world :: s3_world where
  "big_world =
     \<lparr>buckets = [(''big'', map (\<lambda>k. (k, [])) (many_keys 10001))],
      local_dirs = [],
      local_files = [],
      page_limit = 10000\<rparr>"

text \<open>
  The entries of a listing with the delimiter \<open>/\<close> and no start-after key, as
  \<open>iterate_dirs\<close> asks for it; the bucket and the token of the request play no part in them.
\<close>

definition dir_entries :: "string list \<Rightarrow> string \<Rightarrow> entry list" where
  "dir_entries ks p =
     sort_key entry_name
       (remdups (map (entry_of p (Some ''/'')) (filter (\<lambda>k. starts_with k p) ks)))"

text \<open>A bucket with directories in directories, listed one entry per page.\<close>

definition tree_world :: s3_world where
  "tree_world =
     \<lparr>buckets = [(''tree'', [(''x/y/z'', []), (''top'', []), (''x/w'', []), (''q/r'', []),
                              (''x/y/v'', [])])],
      local_dirs = [],
      local_files = [],
      page_limit = 1\<rparr>"

text \<open>
  A bucket with one key, of 1024 separators: a directory in a directory, 1024 times.
  \<open>slash_dirs a b\<close> are the directories of \<open>i + 1\<close> separators and \<open>slash_calls bucket a b\<close>
  the first calls for the prefixes of \<open>i\<close> separators, for \<open>i\<close> from \<open>a\<close> to \<open>b - 1\<close>.
\<close>

definition deep_world :: s3_world where
  "deep_world =
     \<lparr>buckets = [(''deep'', [(replicate 1024 CHR ''/'', [])])],
      local_dirs = [],
      local_files = [],
      page_limit = 1000\<rparr>"

definition slash_dirs :: "nat \<Rightarrow> nat \<Rightarrow> string list" where
  "slash_dirs a b = map (\<lambda>i. replicate (Suc i) CHR ''/'') [a..<b]"

definition slash_calls :: "string \<Rightarrow> nat \<Rightarrow> nat \<Rightarrow> event list" where
  "slash_calls bucket a b =
     map (\<lambda>i. Sdk (ClientListObjectsV2 (dirs_request bucket (replicate i CHR ''/'') []))) [a..<b]"
section \<open>Properties\<close>

subsection \<open>Key iteration against a sequence of responses\<close>

lemma scripted_list [simp]:
  "list_objects_v2 (client (scripted rs self)) = (\<lambda>req n. (rs n, Suc n))"
  by (simp add: scripted_def)

text \<open>One turn of the \<open>while\<close> loop against a script.\<close>

lemma loop_step:
  "iterate_keys_loop (scripted rs self) b p kpp sa ys \<lparr>world = k, calls = cs\<rparr> =
     (case rs k of
        Inl e \<Rightarrow> Some (ys, Inl (SdkError e), \<lparr>world = Suc k, calls = cs @ [Sdk (ClientListObjectsV2 (keys_request b p kpp sa))]\<rparr>)
      | Inr r \<Rightarrow>
         (case IsTruncated r of
            None \<Rightarrow> Some (ys @ response_keys r, Inl (KeyError ''IsTruncated''), \<lparr>world = Suc k, calls = cs @ [Sdk (ClientListObjectsV2 (keys_request b p kpp sa))]\<rparr>)
          | Some t \<Rightarrow>
             if t then
               if response_keys r = [] then Some (ys @ response_keys r, Inl IndexError, \<lparr>world = Suc k, calls = cs @ [Sdk (ClientListObjectsV2 (keys_request b p kpp sa))]\<rparr>)
               else iterate_keys_loop (scripted rs self) b p kpp (last (response_keys r)) (ys @ response_keys r) \<lparr>world = Suc k, calls = cs @ [Sdk (ClientListObjectsV2 (keys_request b p kpp sa))]\<rparr>
             else Some (ys @ response_keys r, Inr (), \<lparr>world = Suc k, calls = cs @ [Sdk (ClientListObjectsV2 (keys_request b p kpp sa))]\<rparr>)))"
  by (subst iterate_keys_loop.simps)
     (simp add: call_sdk_def logged_def split: sum.splits option.splits)

lemma loop_continue:
  assumes "page_truncated rs k = Some True" "page_keys rs k \<noteq> []"
  shows "iterate_keys_loop (scripted rs self) b p 10000 (keys_cursor rs k) ys \<lparr>world = k, calls = cs\<rparr> =
         iterate_keys_loop (scripted rs self) b p 10000 (keys_cursor rs (Suc k)) (ys @ page_keys rs k)
           \<lparr>world = Suc k, calls = cs @ keys_calls rs b p k (Suc k)\<rparr>"
  using assms
  by (subst loop_step)
     (auto simp: page_truncated_def page_keys_def keys_cursor_def keys_calls_def split: sum.splits option.splits)

text \<open>As long as the pages are truncated and not empty, the loop goes on to the next one.\<close>

lemma loop_run:
  assumes "\<forall>i<n. page_truncated rs (k + i) = Some True \<and> page_keys rs (k + i) \<noteq> []"
  shows "iterate_keys_loop (scripted rs self) b p 10000 (keys_cursor rs k) ys \<lparr>world = k, calls = cs\<rparr> =
         iterate_keys_loop (scripted rs self) b p 10000 (keys_cursor rs (k + n))
           (ys @ concat (map (page_keys rs) [k..<k + n]))
           \<lparr>world = k + n, calls = cs @ keys_calls rs b p k (k + n)\<rparr>"
  using assms
proof (induction n)
  case 0
  then show ?case by (simp add: keys_calls_def)
next
  case (Suc n)
  then have "page_truncated rs (k + n) = Some True" "page_keys rs (k + n) \<noteq> []" by simp_all
  from loop_continue[OF this] Suc show ?case
    by (simp add: keys_calls_def)
qed

lemma keys_run:
  assumes "\<forall>i<n. page_truncated rs i = Some True \<and> page_keys rs i \<noteq> []"
  shows "iterate_keys (scripted rs self) bucket prefix \<lparr>world = 0, calls = []\<rparr> =
         iterate_keys_loop (scripted rs self) bucket prefix 10000 (keys_cursor rs n)
           (concat (map (page_keys rs) [0..<n])) \<lparr>world = n, calls = keys_calls rs bucket prefix 0 n\<rparr>"
  using loop_run[of n rs 0 self bucket prefix "[]" "[]"] assms
  by (simp add: iterate_keys_def keys_cursor_def)

text \<open>Every turn of the loop answers one more call, so a run that ends has moved on.\<close>

lemma loop_world:
  assumes "iterate_keys_loop h b p kpp sa ys s = Some y"
  shows "h = scripted rs self \<longrightarrow> world s < world (snd (snd y))"
  using assms
proof (induct rule: iterate_keys_loop.raw_induct[rotated 1, consumes 1, case_names step])
  case (step loop h b p kpp sa ys s y)
  show ?case
  proof
    assume h: "h = scripted rs self"
    from step(2) show "world s < world (snd (snd y))"
      unfolding h
      by (auto simp: call_sdk_def logged_def split: sum.splits option.splits if_splits prod.splits
               dest!: step(1))
  qed
qed

lemma loop_no_index_error:
  assumes "iterate_keys_loop h b p kpp sa ys s = Some y"
      and "\<forall>i. page_truncated rs i = Some True \<longrightarrow> page_keys rs i \<noteq> []"
  shows "h = scripted rs self \<longrightarrow> fst (snd y) \<noteq> Inl IndexError"
  using assms(1)
proof (induct rule: iterate_keys_loop.raw_induct[rotated 1, consumes 1, case_names step])
  case (step loop h b p kpp sa ys s y)
  show ?case
  proof
    assume h: "h = scripted rs self"
    from step(2) assms(2)[rule_format, of "world s"] show "fst (snd y) \<noteq> Inl IndexError"
      unfolding h
      by (auto simp: call_sdk_def logged_def page_truncated_def page_keys_def
               split: sum.splits option.splits if_splits prod.splits dest!: step(1))
  qed
qed

text \<open>
  C2. Let the first \<open>n\<close> responses be truncated pages with keys, so that the loop reaches
  the response \<open>n\<close>. The run ends there, normally and with exactly \<open>n + 1\<close> listing calls made,
  if and only if the truncation flag of response \<open>n\<close> is false. Nothing is asked of the
  number of keys of that response: a final page that is full ends the run like any other.
  The keys yielded are those of the pages \<open>0..n\<close> in order, and call \<open>i\<close> starts after the last
  key of page \<open>i - 1\<close>.
\<close>

theorem iterate_keys_stops_at_untruncated:
  assumes "\<forall>i<n. page_truncated rs i = Some True \<and> page_keys rs i \<noteq> []"
  shows "page_truncated rs n = Some False \<longleftrightarrow>
         iterate_keys (scripted rs self) bucket prefix \<lparr>world = 0, calls = []\<rparr> =
           Some (concat (map (page_keys rs) [0..<Suc n]), Inr (),
                 \<lparr>world = Suc n, calls = keys_calls rs bucket prefix 0 (Suc n)\<rparr>)"
proof
  assume "page_truncated rs n = Some False"
  then show "iterate_keys (scripted rs self) bucket prefix \<lparr>world = 0, calls = []\<rparr> =
         Some (concat (map (page_keys rs) [0..<Suc n]), Inr (),
               \<lparr>world = Suc n, calls = keys_calls rs bucket prefix 0 (Suc n)\<rparr>)"
    unfolding keys_run[OF assms]
    by (subst loop_step)
       (auto simp: page_truncated_def page_keys_def keys_calls_def split: sum.splits option.splits)
next
  assume res: "iterate_keys (scripted rs self) bucket prefix \<lparr>world = 0, calls = []\<rparr> =
         Some (concat (map (page_keys rs) [0..<Suc n]), Inr (),
               \<lparr>world = Suc n, calls = keys_calls rs bucket prefix 0 (Suc n)\<rparr>)"
  show "page_truncated rs n = Some False"
  proof (rule ccontr)
    assume neg: "page_truncated rs n \<noteq> Some False"
    from res[unfolded keys_run[OF assms]] neg show False
      by (subst (asm) loop_step)
         (auto simp: page_truncated_def split: sum.splits option.splits if_splits
               dest!: loop_world[where rs = rs and self = self])
  qed
qed

theorem iterate_keys_stops_at_untruncated_witness:
  "iterate_keys (scripted two_pages (unreachable ())) ''bucket'' '''' \<lparr>world = 0, calls = []\<rparr> =
     Some ([''a'', ''b'', ''c'', ''d''], Inr (),
           \<lparr>world = 2,
              calls = [Sdk (ClientListObjectsV2 (keys_request ''bucket'' '''' 10000 '''')),
                       Sdk (ClientListObjectsV2 (keys_request ''bucket'' '''' 10000 ''b''))]\<rparr>)"
  using iterate_keys_stops_at_untruncated[of 1 two_pages "unreachable ()" "''bucket''" "''''"]
  by (simp add: two_pages_def page_truncated_def page_keys_def response_keys_def keys_calls_def
        keys_cursor_def upt_rec numeral_2_eq_2)

text \<open>
  C9. \<open>keys[-1]\<close> is only defined on a page with keys. If the first \<open>n\<close> responses are
  truncated pages with keys and response \<open>n\<close> is truncated with no key, the run ends at that
  response with \<open>IndexError\<close>, after the keys of the pages before it and with no further call.
  If every truncated response of the sequence has a key, no run ends with \<open>IndexError\<close>.
\<close>

theorem iterate_keys_truncated_empty_page:
  "((\<forall>i<n. page_truncated rs i = Some True \<and> page_keys rs i \<noteq> []) \<and>
      page_truncated rs n = Some True \<and> page_keys rs n = [] \<longrightarrow>
      iterate_keys (scripted rs self) bucket prefix \<lparr>world = 0, calls = []\<rparr> =
        Some (concat (map (page_keys rs) [0..<n]), Inl IndexError,
              \<lparr>world = Suc n, calls = keys_calls rs bucket prefix 0 (Suc n)\<rparr>)) \<and>
   ((\<forall>i. page_truncated rs i = Some True \<longrightarrow> page_keys rs i \<noteq> []) \<longrightarrow>
      (\<forall>s ys st. iterate_keys (scripted rs self) bucket prefix s \<noteq> Some (ys, Inl IndexError, st)))"
proof (intro conjI impI allI)
  assume a: "(\<forall>i<n. page_truncated rs i = Some True \<and> page_keys rs i \<noteq> []) \<and>
      page_truncated rs n = Some True \<and> page_keys rs n = []"
  then have pre: "\<forall>i<n. page_truncated rs i = Some True \<and> page_keys rs i \<noteq> []" by simp
  from a show "iterate_keys (scripted rs self) bucket prefix \<lparr>world = 0, calls = []\<rparr> =
        Some (concat (map (page_keys rs) [0..<n]), Inl IndexError,
              \<lparr>world = Suc n, calls = keys_calls rs bucket prefix 0 (Suc n)\<rparr>)"
    unfolding keys_run[OF pre]
    by (subst loop_step)
       (auto simp: page_truncated_def page_keys_def keys_calls_def split: sum.splits option.splits)
next
  fix s ys st
  assume a: "\<forall>i. page_truncated rs i = Some True \<longrightarrow> page_keys rs i \<noteq> []"
  show "iterate_keys (scripted rs self) bucket prefix s \<noteq> Some (ys, Inl IndexError, st)"
    using loop_no_index_error[OF _ a, of "scripted rs self" bucket prefix 10000 "[]" "[]" s _ self]
    by (auto simp: iterate_keys_def)
qed

theorem iterate_keys_truncated_empty_page_witness:
  "iterate_keys (scripted empty_truncated_page (unreachable ())) ''bucket'' '''' \<lparr>world = 0, calls = []\<rparr> =
     Some ([''a'', ''b''], Inl IndexError,
           \<lparr>world = 2,
              calls = [Sdk (ClientListObjectsV2 (keys_request ''bucket'' '''' 10000 '''')),
                       Sdk (ClientListObjectsV2 (keys_request ''bucket'' '''' 10000 ''b''))]\<rparr>) \<and>
   (\<forall>s ys st. iterate_keys (scripted two_pages (unreachable ())) ''bucket'' '''' s
        \<noteq> Some (ys, Inl IndexError, st))"
  using iterate_keys_truncated_empty_page[of 1 empty_truncated_page "unreachable ()" "''bucket''" "''''"]
        iterate_keys_truncated_empty_page[of 0 two_pages "unreachable ()" "''bucket''" "''''"]
  by (simp add: two_pages_def empty_truncated_page_def page_truncated_def page_keys_def
        response_keys_def keys_calls_def keys_cursor_def upt_rec numeral_2_eq_2)

subsection \<open>The encoding of a body can be undone\<close>

lemma scalar_cases:
  assumes "is_scalar c"
  obtains "c < 128" | "128 \<le> c" "c < 2048" | "2048 \<le> c" "c < 65536" | "65536 \<le> c" "c < 1114112"
  using assms unfolding is_scalar_def by linarith

lemma three_bytes_value: "c div 4096 * 4096 + c div 64 mod 64 * 64 + c mod 64 = (c::nat)"
proof -
  define a where "a = c div 64"
  have 1: "c div 4096 = a div 64" unfolding a_def by (simp add: div_mult2_eq[symmetric])
  have g: "(x * 64 + y) * 64 = x * 4096 + y * (64::nat)" for x y by simp
  have "a * 64 = (a div 64 * 64 + a mod 64) * 64" by (simp only: div_mult_mod_eq)
  also have "\<dots> = a div 64 * 4096 + a mod 64 * 64" by (rule g)
  finally have 2: "a div 64 * 4096 + a mod 64 * 64 = a * 64" by simp
  have 3: "a * 64 + c mod 64 = c" unfolding a_def by simp
  show ?thesis unfolding 1 a_def[symmetric] 2 3 ..
qed

lemma four_bytes_value:
  "c div 262144 * 262144 + c div 4096 mod 64 * 4096 + c div 64 mod 64 * 64 + c mod 64 = (c::nat)"
proof -
  define b where "b = c div 4096"
  have 1: "c div 262144 = b div 64" unfolding b_def by (simp add: div_mult2_eq[symmetric])
  have g: "(x * 64 + y) * 4096 = x * 262144 + y * (4096::nat)" for x y by simp
  have "b * 4096 = (b div 64 * 64 + b mod 64) * 4096" by (simp only: div_mult_mod_eq)
  also have "\<dots> = b div 64 * 262144 + b mod 64 * 4096" by (rule g)
  finally have 2: "b div 64 * 262144 + b mod 64 * 4096 = c div 4096 * 4096" unfolding b_def by simp
  show ?thesis unfolding 1 b_def[symmetric] 2[unfolded b_def[symmetric]]
    unfolding b_def by (rule three_bytes_value)
qed

lemma decode_one_byte:
  "c < 128 \<Longrightarrow> utf8_decode (utf8_encode_char c @ rest) = map_option ((#) c) (utf8_decode rest)"
  by (simp add: utf8_encode_char_def)

lemma decode_two_bytes:
  assumes "128 \<le> c" "c < 2048"
  shows "utf8_decode (utf8_encode_char c @ rest) = map_option ((#) c) (utf8_decode rest)"
proof -
  from assms have "c div 64 < 32" "2 \<le> c div 64" by simp_all
  with assms show ?thesis
    by (simp add: utf8_encode_char_def continuation_def)
qed

lemma decode_three_bytes:
  assumes 3: "2048 \<le> c" "c < 65536" and s: "is_scalar c"
  shows "utf8_decode (utf8_encode_char c @ rest) = map_option ((#) c) (utf8_decode rest)"
proof -
  have d: "c div 4096 < 16" "c div 64 mod 64 < 64" "c mod 64 < 64" using 3 by simp_all
  have enc: "utf8_encode_char c = [224 + c div 4096, 128 + (c div 64) mod 64, 128 + c mod 64]"
    using 3 by (simp add: utf8_encode_char_def)
  have b0: "\<not> 224 + c div 4096 < 128" "\<not> (194 \<le> 224 + c div 4096 \<and> 224 + c div 4096 < 224)"
    "224 \<le> 224 + c div 4096 \<and> 224 + c div 4096 < 240" using d by simp_all
  have k: "continuation (128 + c div 64 mod 64)" "continuation (128 + c mod 64)"
    using d by (simp_all add: continuation_def)
  have v: "(224 + c div 4096 - 224) * 4096 + (128 + c div 64 mod 64 - 128) * 64 + (128 + c mod 64 - 128) = c"
    using three_bytes_value[of c] by simp
  show ?thesis
    unfolding enc
    apply (simp only: append_Cons append_Nil utf8_decode.simps b0 if_True if_False list.case k v)
    using 3 s by simp
qed

lemma decode_four_bytes:
  assumes 4: "65536 \<le> c" "c < 1114112"
  shows "utf8_decode (utf8_encode_char c @ rest) = map_option ((#) c) (utf8_decode rest)"
proof -
  have d: "c div 262144 < 5" "c div 4096 mod 64 < 64" "c div 64 mod 64 < 64" "c mod 64 < 64"
    using 4 by simp_all
  have enc: "utf8_encode_char c =
      [240 + c div 262144, 128 + (c div 4096) mod 64, 128 + (c div 64) mod 64, 128 + c mod 64]"
    using 4 by (simp add: utf8_encode_char_def)
  have b0: "\<not> 240 + c div 262144 < 128" "\<not> (194 \<le> 240 + c div 262144 \<and> 240 + c div 262144 < 224)"
    "\<not> (224 \<le> 240 + c div 262144 \<and> 240 + c div 262144 < 240)"
    "240 \<le> 240 + c div 262144 \<and> 240 + c div 262144 < 245" using d by simp_all
  have k: "continuation (128 + c div 4096 mod 64)" "continuation (128 + c div 64 mod 64)"
    "continuation (128 + c mod 64)"
    using d by (simp_all add: continuation_def)
  have v: "(240 + c div 262144 - 240) * 262144 + (128 + c div 4096 mod 64 - 128) * 4096
             + (128 + c div 64 mod 64 - 128) * 64 + (128 + c mod 64 - 128) = c"
    using four_bytes_value[of c] by simp
  show ?thesis
    unfolding enc
    apply (simp only: append_Cons append_Nil utf8_decode.simps b0 if_True if_False list.case k v)
    using 4 by simp
qed

lemma utf8_decode_char:
  assumes "is_scalar c"
  shows "utf8_decode (utf8_encode_char c @ rest) = map_option ((#) c) (utf8_decode rest)"
  by (rule scalar_cases[OF assms])
     (simp_all add: decode_one_byte decode_two_bytes decode_three_bytes[OF _ _ assms] decode_four_bytes)

lemma utf8_roundtrip: "list_all is_scalar cs \<Longrightarrow> utf8_decode (utf8_encode cs) = Some cs"
  by (induction cs) (simp_all add: utf8_encode_def utf8_decode_char)

subsection \<open>Writing, reading and copying in the model of the service\<close>

lemma write_file_s3:
  assumes "write_file s3 bucket key content s = (Inr (), s1)"
  shows "list_all is_scalar content \<and> key \<noteq> [] \<and>
         (\<exists>objects. map_of (buckets (world s)) bucket = Some objects \<and>
            s1 = \<lparr>world = (world s)\<lparr>buckets := AList.update bucket
                        (AList.update key (utf8_encode content) objects) (buckets (world s))\<rparr>,
                  calls = calls s @ [Sdk (ObjectPut bucket key content)]\<rparr>)"
  using assms
  by (auto simp: write_file_def call_sdk_def logged_def s3_def s3_put_def s3_store_def
           split: if_splits option.splits sum.splits prod.splits)

lemma read_after_store:
  assumes "map_of (buckets w) bucket = Some objects"
  shows "s3_get bucket key (w\<lparr>buckets := AList.update bucket (AList.update key body objects) (buckets w)\<rparr>)
         = (Inr body, w\<lparr>buckets := AList.update bucket (AList.update key body objects) (buckets w)\<rparr>)"
  by (simp add: s3_get_def update_conv)

text \<open>
  Reading back with any decoding that undoes the encoding of the body gives the content.
\<close>

lemma write_then_read_any_decoding:
  assumes "write_file s3 bucket key content s = (Inr (), s1)"
      and "decode \<noteq> []"
      and "bytes_decode rt decode (utf8_encode content) = Inr content"
  shows "read_file rt s3 bucket key decode s1 =
           (Inr (Str content), \<lparr>world = world s1, calls = calls s1 @ [Sdk (ObjectGet bucket key)]\<rparr>)"
proof -
  from write_file_s3[OF assms(1)] obtain objects where
    o: "map_of (buckets (world s)) bucket = Some objects"
    and s1: "s1 = \<lparr>world = (world s)\<lparr>buckets := AList.update bucket
                        (AList.update key (utf8_encode content) objects) (buckets (world s))\<rparr>,
                  calls = calls s @ [Sdk (ObjectPut bucket key content)]\<rparr>"
    by blast
  show ?thesis
    unfolding s1 using assms(2,3) read_after_store[OF o, of key "utf8_encode content"]
    by (simp add: read_file_def call_sdk_def logged_def s3_def)
qed

text \<open>
  C6. In the model of the service, once \<open>write_file\<close> has returned, \<open>read_file\<close> of the same
  bucket and key with the decoding \<open>utf-8\<close>, the encoding that the body of a text is stored
  in and the default of \<open>read_file\<close>, makes one call and returns the content as a string.
\<close>

theorem write_file_then_read_file:
  assumes "write_file s3 bucket key content s = (Inr (), s1)"
  shows "read_file (python codecs) s3 bucket key ''utf-8'' s1 =
           (Inr (Str content), \<lparr>world = world s1, calls = calls s1 @ [Sdk (ObjectGet bucket key)]\<rparr>)"
proof -
  from write_file_s3[OF assms] have "list_all is_scalar content" by simp
  then have "bytes_decode (python codecs) ''utf-8'' (utf8_encode content) = Inr content"
    by (simp add: python_def python_decode_def utf8_roundtrip)
  with assms show ?thesis
    by (intro write_then_read_any_decoding) simp_all
qed

theorem write_file_then_read_file_witness:
  "write_file s3 ''bucket'' ''notes/euro'' [104, 233, 8364, 128512] \<lparr>world = demo_world, calls = []\<rparr> =
     (Inr (),
      \<lparr>world = demo_world\<lparr>buckets :=
           [(''bucket'', [(''a/b'', [104, 105]), (''a/c'', []), (''d'', []),
                          (''notes/euro'', [104, 195, 169, 226, 130, 172, 240, 159, 152, 128])]),
            (''b1'', [(''/b2/k'', [115, 114, 99])]),
            (''b2'', [(''k'', [111, 116, 104, 101, 114])]),
            (''t'', [])]\<rparr>,
         calls = [Sdk (ObjectPut ''bucket'' ''notes/euro'' [104, 233, 8364, 128512])]\<rparr>) \<and>
   fst (read_file (python no_codecs) s3 ''bucket'' ''notes/euro'' ''utf-8''
      \<lparr>world = demo_world\<lparr>buckets :=
           [(''bucket'', [(''a/b'', [104, 105]), (''a/c'', []), (''d'', []),
                          (''notes/euro'', [104, 195, 169, 226, 130, 172, 240, 159, 152, 128])]),
            (''b1'', [(''/b2/k'', [115, 114, 99])]),
            (''b2'', [(''k'', [111, 116, 104, 101, 114])]),
            (''t'', [])]\<rparr>,
         calls = [Sdk (ObjectPut ''bucket'' ''notes/euro'' [104, 233, 8364, 128512])]\<rparr>)
     = Inr (Str [104, 233, 8364, 128512])"
proof -
  have w: "write_file s3 ''bucket'' ''notes/euro'' [104, 233, 8364, 128512] \<lparr>world = demo_world, calls = []\<rparr> =
     (Inr (),
      \<lparr>world = demo_world\<lparr>buckets :=
           [(''bucket'', [(''a/b'', [104, 105]), (''a/c'', []), (''d'', []),
                          (''notes/euro'', [104, 195, 169, 226, 130, 172, 240, 159, 152, 128])]),
            (''b1'', [(''/b2/k'', [115, 114, 99])]),
            (''b2'', [(''k'', [111, 116, 104, 101, 114])]),
            (''t'', [])]\<rparr>,
         calls = [Sdk (ObjectPut ''bucket'' ''notes/euro'' [104, 233, 8364, 128512])]\<rparr>)"
    by (simp add: write_file_def call_sdk_def logged_def s3_def s3_put_def s3_store_def
          demo_world_def is_scalar_def utf8_encode_def utf8_encode_char_def)
  from write_file_then_read_file[OF w] w show ?thesis by simp
qed

text \<open>
  The copy source that \<open>copy_file\<close> hands to the SDK is made with \<open>os.path.join\<close>. For a
  bucket name and a key that does not begin with the separator it is bucket, separator, key,
  and the copy is then read back as the source is.
\<close>

lemma parse_joined_source:
  assumes "src_bucket \<noteq> []" "CHR ''/'' \<notin> set src_bucket" "src_key \<noteq> []" "hd src_key \<noteq> CHR ''/''"
  shows "parse_copy_source (os_path_join src_bucket src_key) = Some (src_bucket, src_key)"
proof -
  from assms(1,2) have l: "last src_bucket \<noteq> CHR ''/''" "hd src_bucket \<noteq> CHR ''/''"
    by (metis last_in_set, metis hd_in_set)
  then have j: "os_path_join src_bucket src_key = src_bucket @ ''/'' @ src_key"
    using assms by (simp add: os_path_join_def)
  have t: "takeWhile (\<lambda>c. c \<noteq> CHR ''/'') (src_bucket @ ''/'' @ src_key) = src_bucket"
    using assms(2) by (induction src_bucket) auto
  have d: "dropWhile (\<lambda>c. c \<noteq> CHR ''/'') (src_bucket @ ''/'' @ src_key) = ''/'' @ src_key"
    using assms(2) by (induction src_bucket) auto
  have h: "hd (src_bucket @ ''/'' @ src_key) \<noteq> CHR ''/''" using l assms(1) by simp
  show ?thesis
    unfolding j parse_copy_source_def using assms(1,3) h t d by (simp add: Let_def)
qed

lemma copy_file_then_read_file:
  assumes "src_bucket \<noteq> []" "CHR ''/'' \<notin> set src_bucket" "src_key \<noteq> []" "hd src_key \<noteq> CHR ''/''"
      and "copy_file s3 src_bucket src_key trg_bucket trg_key s = (Inr (), s1)"
  shows "fst (read_file rt s3 trg_bucket trg_key decode s1) =
         fst (read_file rt s3 src_bucket src_key decode s)"
proof -
  note p = parse_joined_source[OF assms(1-4)]
  from assms(5) obtain body objects where
    g: "s3_get src_bucket src_key (world s) = (Inr body, world s)"
    and o: "map_of (buckets (world s)) trg_bucket = Some objects"
    and w1: "world s1 = (world s)\<lparr>buckets := AList.update trg_bucket
                        (AList.update trg_key body objects) (buckets (world s))\<rparr>"
    by (auto simp: copy_file_def call_sdk_def logged_def s3_def s3_copy_from_def p s3_store_def
          s3_get_def Let_def split: if_splits option.splits sum.splits prod.splits)
  from read_after_store[OF o, of trg_key body] w1
  have "s3_get trg_bucket trg_key (world s1) = (Inr body, world s1)" by simp
  with g show ?thesis
    by (simp add: read_file_def call_sdk_def logged_def s3_def split: sum.splits)
qed

text \<open>
  C7. A key may begin with the separator, and \<open>os.path.join\<close> then drops the bucket: the
  copy source of the object \<open>/b2/k\<close> of bucket \<open>b1\<close> is \<open>/b2/k\<close>, which names the object \<open>k\<close>
  of bucket \<open>b2\<close>. The copy succeeds, and the target reads as \<open>other\<close> while the source reads
  as \<open>src\<close>.
\<close>

theorem copy_file_key_with_leading_separator:
  "(case copy_file s3 ''b1'' ''/b2/k'' ''t'' ''copy'' \<lparr>world = demo_world, calls = []\<rparr> of
      (outcome, s1) \<Rightarrow>
        (outcome, calls s1,
         fst (read_file (python no_codecs) s3 ''t'' ''copy'' ''utf-8'' s1),
         fst (read_file (python no_codecs) s3 ''b1'' ''/b2/k'' ''utf-8'' s1))) =
   (Inr (), [Sdk (ObjectCopyFrom ''t'' ''copy'' ''/b2/k'')],
    Inr (Str [111, 116, 104, 101, 114]), Inr (Str [115, 114, 99]))"
  by (simp add: copy_file_def read_file_def call_sdk_def logged_def s3_def s3_copy_from_def
        parse_copy_source_def os_path_join_def s3_store_def s3_get_def demo_world_def
        python_def python_decode_def Let_def)

subsection \<open>Download\<close>

lemma dirname_without_separator: "CHR ''/'' \<notin> set path \<Longrightarrow> os_path_dirname path = []"
proof -
  assume "CHR ''/'' \<notin> set path"
  then have "dropWhile (\<lambda>c. c \<noteq> CHR ''/'') (rev path) = []" by auto
  then show ?thesis by (simp add: os_path_dirname_def)
qed

text \<open>
  C10. The runtime is a parameter; that \<open>os.path.exists\<close> is false on the empty path and
  that \<open>os.makedirs\<close> raises on it are facts about it. With them, for a path without
  separator \<open>download_file\<close> calls \<open>makedirs\<close> on the empty path and leaves with its error,
  and the log holds no call of the SDK. When the directory of the path exists, the only
  call is the download of the client, and its result is the result.
\<close>

theorem download_file_local_directory:
  "(CHR ''/'' \<notin> set local_file_path \<and> \<not> path_exists rt [] (world s)
      \<and> makedirs rt [] (world s) = (Inl oe, w') \<longrightarrow>
      download_file rt self bucket key local_file_path s =
        (Inl (OSError oe), \<lparr>world = w', calls = calls s @ [Makedirs []]\<rparr>)) \<and>
   (path_exists rt (os_path_dirname local_file_path) (world s)
      \<and> download_file_c (client self) bucket key local_file_path (world s) = (r, w') \<longrightarrow>
      download_file rt self bucket key local_file_path s =
        ((case r of Inl e \<Rightarrow> Inl (SdkError e) | Inr u \<Rightarrow> Inr u),
         \<lparr>world = w', calls = calls s @ [Sdk (ClientDownloadFile bucket key local_file_path)]\<rparr>))"
  by (auto simp: download_file_def dirname_without_separator call_sdk_def logged_def Let_def
           split: sum.splits)

theorem download_file_local_directory_witness:
  "download_file (python no_codecs) s3 ''bucket'' ''a/b'' ''b.txt'' \<lparr>world = demo_world, calls = []\<rparr> =
     (Inl (OSError FileNotFoundError), \<lparr>world = demo_world, calls = [Makedirs []]\<rparr>) \<and>
   download_file (python no_codecs) s3 ''bucket'' ''a/b'' ''data/b.txt'' \<lparr>world = demo_world, calls = []\<rparr> =
     (Inr (), \<lparr>world = demo_world\<lparr>local_files := [(''data/b.txt'', [104, 105])]\<rparr>,
                calls = [Sdk (ClientDownloadFile ''bucket'' ''a/b'' ''data/b.txt'')]\<rparr>)"
proof -
  have 1: "CHR ''/'' \<notin> set ''b.txt''" "\<not> path_exists (python no_codecs) [] demo_world"
    "makedirs (python no_codecs) [] demo_world = (Inl FileNotFoundError, demo_world)"
    by (simp_all add: python_def python_exists_def python_makedirs_def)
  have 2: "path_exists (python no_codecs) (os_path_dirname ''data/b.txt'') demo_world"
    "download_file_c (client s3) ''bucket'' ''a/b'' ''data/b.txt'' demo_world =
       (Inr (), demo_world\<lparr>local_files := [(''data/b.txt'', [104, 105])]\<rparr>)"
    by (simp_all add: python_def python_exists_def os_path_dirname_def rstrip_sep_def Let_def
          s3_def s3_download_file_def s3_get_def demo_world_def)
  from download_file_local_directory[of "''b.txt''" "python no_codecs" "\<lparr>world = demo_world, calls = []\<rparr>"
         FileNotFoundError demo_world s3 "''bucket''" "''a/b''"] 1
       download_file_local_directory[of "''data/b.txt''" "python no_codecs" "\<lparr>world = demo_world, calls = []\<rparr>"
         _ "demo_world\<lparr>local_files := [(''data/b.txt'', [104, 105])]\<rparr>" s3 "''bucket''" "''a/b''" "Inr ()"] 2
  show ?thesis by simp
qed

subsection \<open>Errors of the SDK\<close>

lemma iterate_dirs_from_at_page:
  "iterate_dirs_from rt self bucket depth (AtPage prefix token) yielded s =
     (case call_sdk (ClientListObjectsV2 (dirs_request bucket prefix token))
             (list_objects_v2 (client self) (dirs_request bucket prefix token)) s of
        (Inl x, s') \<Rightarrow> Some (yielded, Inl x, s')
      | (Inr response, s') \<Rightarrow>
          iterate_dirs_from rt self bucket depth (InPage prefix (response_subdirs response) response)
            yielded s')"
  by (subst iterate_dirs_from.simps) simp

lemma iterate_dirs_from_page_done:
  "iterate_dirs_from rt self bucket depth (InPage prefix [] response) yielded s =
     (case NextContinuationToken response of
        Some token \<Rightarrow> iterate_dirs_from rt self bucket depth (AtPage prefix token) yielded s
      | None \<Rightarrow> Some (yielded, Inr (), s))"
  by (subst iterate_dirs_from.simps) simp

lemma iterate_dirs_from_subdir:
  "iterate_dirs_from rt self bucket depth (InPage prefix (subdir # rest) response) yielded s =
     (if recursion_limit rt \<le> depth then Some (yielded @ [subdir], Inl RecursionError, s)
      else
        Option.bind
          (iterate_dirs_from rt self bucket (Suc depth) (AtPage subdir []) (yielded @ [subdir]) s)
          (\<lambda>(yielded', outcome, s').
             case outcome of
               Inl x \<Rightarrow> Some (yielded', Inl x, s')
             | Inr u \<Rightarrow> iterate_dirs_from rt self bucket depth (InPage prefix rest response) yielded' s'))"
  by (subst iterate_dirs_from.simps) simp

text \<open>
  Against a sequence of responses whose call \<open>n\<close> fails and whose calls before it succeed,
  every run of directory iteration that starts before call \<open>n\<close> ends: either at call \<open>n\<close>,
  with the error of that call, or before it, normally or with \<open>RecursionError\<close>. The log
  grows by one entry for each call.
\<close>

lemma dirs_run_until_error:
  assumes rs: "\<forall>i<n. is_response rs i" "rs n = Inl e"
      and k: "world s \<le> n"
  shows "\<exists>ys' out s'.
           iterate_dirs_from rt (scripted rs other) b d pos ys s = Some (ys', out, s') \<and>
           world s \<le> world s' \<and> (\<forall>p t. pos = AtPage p t \<longrightarrow> world s < world s') \<and>
           length (calls s') = length (calls s) + (world s' - world s) \<and>
           (world s' = Suc n \<and> out = Inl (SdkError e) \<or>
            world s' \<le> n \<and> (out = Inr () \<or> out = Inl RecursionError))"
    (is "\<exists>ys' out s'. ?R d pos ys s ys' out s'")
  using k
proof (induction "Suc n - world s" arbitrary: s d pos ys rule: less_induct)
  case less
  have at: "\<exists>ys' out s'. ?R d (AtPage p t) ys s ys' out s'" for d p t ys
  proof (cases "world s = n")
    case True
    with rs(2) show ?thesis
      by (simp add: iterate_dirs_from_at_page call_sdk_def logged_def)
  next
    case False
    with less.prems have lt: "world s < n" by simp
    with rs(1) obtain r where r: "rs (world s) = Inr r"
      by (cases "rs (world s)") (auto simp: is_response_def)
    let ?s1 = "\<lparr>world = Suc (world s),
                 calls = calls s @ [Sdk (ClientListObjectsV2 (dirs_request b p t))]\<rparr>"
    have step: "iterate_dirs_from rt (scripted rs other) b d (AtPage p t) ys s =
                iterate_dirs_from rt (scripted rs other) b d (InPage p (response_subdirs r) r) ys ?s1"
      using r by (simp add: iterate_dirs_from_at_page call_sdk_def logged_def)
    have "Suc n - world ?s1 < Suc n - world s" "world ?s1 \<le> n" using lt by simp_all
    from less.hyps[OF this, of d "InPage p (response_subdirs r) r" ys]
    obtain ys' out s' where "?R d (InPage p (response_subdirs r) r) ys ?s1 ys' out s'" by blast
    then have "?R d (AtPage p t) ys s ys' out s'"
      unfolding step by auto
    then show ?thesis by blast
  qed
  show ?case
  proof (cases pos)
    case (AtPage p t)
    with at[of d p t ys] show ?thesis by simp
  next
    case (InPage p ds r)
    show ?thesis
    proof (cases ds)
      case Nil
      show ?thesis
      proof (cases "NextContinuationToken r")
        case None
        with InPage Nil less.prems show ?thesis
          by (simp add: iterate_dirs_from_page_done)
      next
        case (Some t)
        from at[of d p t ys] obtain ys' out s' where "?R d (AtPage p t) ys s ys' out s'" by blast
        with InPage Nil Some have "?R d pos ys s ys' out s'"
          by (simp add: iterate_dirs_from_page_done)
        then show ?thesis by blast
      qed
    next
      case (Cons sub rest)
      show ?thesis
      proof (cases "recursion_limit rt \<le> d")
        case True
        with InPage Cons less.prems show ?thesis
          by (simp add: iterate_dirs_from_subdir)
      next
        case False
        from at[of "Suc d" sub "[]" "ys @ [sub]"] obtain ys1 out1 s1 where
          1: "?R (Suc d) (AtPage sub []) (ys @ [sub]) s ys1 out1 s1" by blast
        then have run1: "iterate_dirs_from rt (scripted rs other) b (Suc d) (AtPage sub []) (ys @ [sub]) s
                          = Some (ys1, out1, s1)"
          and lt: "world s < world s1"
          and len: "length (calls s1) = length (calls s) + (world s1 - world s)"
          and end1: "world s1 = Suc n \<and> out1 = Inl (SdkError e) \<or>
                     world s1 \<le> n \<and> (out1 = Inr () \<or> out1 = Inl RecursionError)"
          by simp_all
        show ?thesis
        proof (cases out1)
          case (Inl x)
          with InPage Cons False run1 lt len end1 have "?R d pos ys s ys1 out1 s1"
            by (simp add: iterate_dirs_from_subdir)
          then show ?thesis by blast
        next
          case (Inr u)
          with end1 have le: "world s1 \<le> n" by auto
          with lt have "Suc n - world s1 < Suc n - world s" by simp
          from less.hyps[OF this le, of d "InPage p rest r" ys1]
          obtain ys' out s' where 2: "?R d (InPage p rest r) ys1 s1 ys' out s'" by blast
          with InPage Cons False run1 Inr lt len have "?R d pos ys s ys' out s'"
            by (simp add: iterate_dirs_from_subdir)
          then show ?thesis by blast
        qed
      qed
    qed
  qed
qed

text \<open>
  C8. No method has a handler for exceptions, so an error of the SDK leaves each method as
  it is, with the world as the failing call left it and that call the last of the log.
  For the two iterators the failing call may be any call of the run. For key iteration it
  is the call \<open>n\<close> after \<open>n\<close> truncated pages. For directory iteration, the request of a page
  at any place and depth of the run ends the run of that level with the error, an exception
  that leaves the recursive call leaves the calling generator unchanged, and so to the end:
  against any sequence of responses whose call \<open>n\<close> fails, whatever the pages before it hold,
  the whole run ends, and it has made call \<open>n\<close> if and only if it ends with the error of that
  call; otherwise it has ended before, normally or because the recursion went too deep.
\<close>

theorem sdk_errors_surface_unmodified:
  "(object_get (resource self) bucket key (world s) = (Inl e, w') \<longrightarrow>
      read_file rt self bucket key decode s =
        (Inl (SdkError e), \<lparr>world = w', calls = calls s @ [Sdk (ObjectGet bucket key)]\<rparr>)) \<and>
   (object_put (resource self) bucket key content (world s) = (Inl e, w') \<longrightarrow>
      write_file self bucket key content s =
        (Inl (SdkError e), \<lparr>world = w', calls = calls s @ [Sdk (ObjectPut bucket key content)]\<rparr>)) \<and>
   (object_copy_from (resource self) trg_bucket trg_key (os_path_join src_bucket src_key) (world s)
        = (Inl e, w') \<longrightarrow>
      copy_file self src_bucket src_key trg_bucket trg_key s =
        (Inl (SdkError e),
         \<lparr>world = w',
            calls = calls s @ [Sdk (ObjectCopyFrom trg_bucket trg_key (os_path_join src_bucket src_key))]\<rparr>)) \<and>
   (path_exists rt (os_path_dirname local_file_path) (world s)
      \<and> download_file_c (client self) bucket key local_file_path (world s) = (Inl e, w') \<longrightarrow>
      download_file rt self bucket key local_file_path s =
        (Inl (SdkError e),
         \<lparr>world = w', calls = calls s @ [Sdk (ClientDownloadFile bucket key local_file_path)]\<rparr>)) \<and>
   (\<not> path_exists rt (os_path_dirname local_file_path) (world s)
      \<and> makedirs rt (os_path_dirname local_file_path) (world s) = (Inr (), wm)
      \<and> download_file_c (client self) bucket key local_file_path wm = (Inl e, w') \<longrightarrow>
      download_file rt self bucket key local_file_path s =
        (Inl (SdkError e),
         \<lparr>world = w',
            calls = calls s @ [Makedirs (os_path_dirname local_file_path),
                               Sdk (ClientDownloadFile bucket key local_file_path)]\<rparr>)) \<and>
   (bucket_upload_file (resource self) bucket local_file_path key (world s) = (Inl e, w') \<longrightarrow>
      upload_file self bucket key local_file_path s =
        (Inl (SdkError e),
         \<lparr>world = w', calls = calls s @ [Sdk (BucketUploadFile bucket local_file_path key)]\<rparr>)) \<and>
   (object_delete (resource self) bucket key (world s) = (Inl e, w') \<longrightarrow>
      delete_file self bucket key s =
        (Inl (SdkError e), \<lparr>world = w', calls = calls s @ [Sdk (ObjectDelete bucket key)]\<rparr>)) \<and>
   (head_object (client self) bucket key (world s) = (Inl e, w') \<longrightarrow>
      get_file_size self bucket key s =
        (Inl (SdkError e), \<lparr>world = w', calls = calls s @ [Sdk (ClientHeadObject bucket key)]\<rparr>)) \<and>
   (list_buckets_c (client self) (world s) = (Inl e, w') \<longrightarrow>
      list_buckets self s =
        (Inl (SdkError e), \<lparr>world = w', calls = calls s @ [Sdk ClientListBuckets]\<rparr>)) \<and>
   ((\<forall>i<n. page_truncated rs i = Some True \<and> page_keys rs i \<noteq> []) \<and> rs n = Inl e \<longrightarrow>
      iterate_keys (scripted rs other) bucket prefix \<lparr>world = 0, calls = []\<rparr> =
        Some (concat (map (page_keys rs) [0..<n]), Inl (SdkError e),
              \<lparr>world = Suc n, calls = keys_calls rs bucket prefix 0 (Suc n)\<rparr>)) \<and>
   (list_objects_v2 (client self) (dirs_request bucket prefix token) (world s) = (Inl e, w') \<longrightarrow>
      iterate_dirs_from rt self bucket depth (AtPage prefix token) yielded s =
        Some (yielded, Inl (SdkError e),
              \<lparr>world = w',
                 calls = calls s @ [Sdk (ClientListObjectsV2 (dirs_request bucket prefix token))]\<rparr>)) \<and>
   (depth < recursion_limit rt
      \<and> iterate_dirs_from rt self bucket (Suc depth) (AtPage subdir []) (yielded @ [subdir]) s
          = Some (yielded', Inl x, s') \<longrightarrow>
      iterate_dirs_from rt self bucket depth (InPage prefix (subdir # rest) response) yielded s =
        Some (yielded', Inl x, s')) \<and>
   ((\<forall>i<n. is_response rs i) \<and> rs n = Inl e \<longrightarrow>
      (\<exists>ys out st.
         iterate_dirs stack (scripted rs other) bucket prefix \<lparr>world = 0, calls = []\<rparr> = Some (ys, out, st) \<and>
         length (calls st) = world st \<and>
         (world st = Suc n \<and> out = Inl (SdkError e) \<or>
          world st \<le> n \<and> (out = Inr () \<or> out = Inl RecursionError))))"
proof (intro conjI impI)
  assume a: "(\<forall>i<n. page_truncated rs i = Some True \<and> page_keys rs i \<noteq> []) \<and> rs n = Inl e"
  then have pre: "\<forall>i<n. page_truncated rs i = Some True \<and> page_keys rs i \<noteq> []" by simp
  from a show "iterate_keys (scripted rs other) bucket prefix \<lparr>world = 0, calls = []\<rparr> =
        Some (concat (map (page_keys rs) [0..<n]), Inl (SdkError e),
              \<lparr>world = Suc n, calls = keys_calls rs bucket prefix 0 (Suc n)\<rparr>)"
    unfolding keys_run[OF pre]
    by (subst loop_step) (simp add: keys_calls_def)
next
  assume a: "(\<forall>i<n. is_response rs i) \<and> rs n = Inl e"
  then have rs: "\<forall>i<n. is_response rs i" "rs n = Inl e" by simp_all
  have "world \<lparr>world = 0::nat, calls = []\<rparr> \<le> n" by simp
  from dirs_run_until_error[OF rs this, of stack other bucket 0 "AtPage prefix []" "[]"]
  show "\<exists>ys out st.
         iterate_dirs stack (scripted rs other) bucket prefix \<lparr>world = 0, calls = []\<rparr> = Some (ys, out, st) \<and>
         length (calls st) = world st \<and>
         (world st = Suc n \<and> out = Inl (SdkError e) \<or>
          world st \<le> n \<and> (out = Inr () \<or> out = Inl RecursionError))"
    unfolding iterate_dirs_def by auto
qed (simp_all add: read_file_def write_file_def copy_file_def download_file_def upload_file_def
       delete_file_def get_file_size_def list_buckets_def call_sdk_def logged_def Let_def
       iterate_dirs_from_at_page iterate_dirs_from_subdir)

theorem sdk_errors_surface_unmodified_witness:
  "read_file (python no_codecs) (unreachable ''AccessDenied'') ''bucket'' ''d'' ''utf-8''
       \<lparr>world = demo_world, calls = []\<rparr> =
     (Inl (SdkError ''AccessDenied''), \<lparr>world = demo_world, calls = [Sdk (ObjectGet ''bucket'' ''d'')]\<rparr>) \<and>
   write_file (unreachable ''AccessDenied'') ''bucket'' ''d'' [104, 105] \<lparr>world = demo_world, calls = []\<rparr> =
     (Inl (SdkError ''AccessDenied''), \<lparr>world = demo_world, calls = [Sdk (ObjectPut ''bucket'' ''d'' [104, 105])]\<rparr>) \<and>
   copy_file (unreachable ''AccessDenied'') ''bucket'' ''d'' ''t'' ''copy'' \<lparr>world = demo_world, calls = []\<rparr> =
     (Inl (SdkError ''AccessDenied''),
      \<lparr>world = demo_world, calls = [Sdk (ObjectCopyFrom ''t'' ''copy'' ''bucket/d'')]\<rparr>) \<and>
   download_file (python no_codecs) (unreachable ''AccessDenied'') ''bucket'' ''d'' ''data/d.txt''
       \<lparr>world = demo_world, calls = []\<rparr> =
     (Inl (SdkError ''AccessDenied''),
      \<lparr>world = demo_world, calls = [Sdk (ClientDownloadFile ''bucket'' ''d'' ''data/d.txt'')]\<rparr>) \<and>
   download_file (python no_codecs) (unreachable ''AccessDenied'') ''bucket'' ''d'' ''new/d.txt''
       \<lparr>world = demo_world, calls = []\<rparr> =
     (Inl (SdkError ''AccessDenied''),
      \<lparr>world = demo_world\<lparr>local_dirs := [''new'', ''data'']\<rparr>,
         calls = [Makedirs ''new'', Sdk (ClientDownloadFile ''bucket'' ''d'' ''new/d.txt'')]\<rparr>) \<and>
   upload_file (unreachable ''AccessDenied'') ''bucket'' ''d'' ''data/d.txt'' \<lparr>world = demo_world, calls = []\<rparr> =
     (Inl (SdkError ''AccessDenied''),
      \<lparr>world = demo_world, calls = [Sdk (BucketUploadFile ''bucket'' ''data/d.txt'' ''d'')]\<rparr>) \<and>
   delete_file (unreachable ''AccessDenied'') ''bucket'' ''d'' \<lparr>world = demo_world, calls = []\<rparr> =
     (Inl (SdkError ''AccessDenied''), \<lparr>world = demo_world, calls = [Sdk (ObjectDelete ''bucket'' ''d'')]\<rparr>) \<and>
   get_file_size (unreachable ''AccessDenied'') ''bucket'' ''d'' \<lparr>world = demo_world, calls = []\<rparr> =
     (Inl (SdkError ''AccessDenied''), \<lparr>world = demo_world, calls = [Sdk (ClientHeadObject ''bucket'' ''d'')]\<rparr>) \<and>
   list_buckets (unreachable ''AccessDenied'') \<lparr>world = demo_world, calls = []\<rparr> =
     (Inl (SdkError ''AccessDenied''), \<lparr>world = demo_world, calls = [Sdk ClientListBuckets]\<rparr>) \<and>
   iterate_keys (scripted then_denied (unreachable ''Unused'')) ''bucket'' '''' \<lparr>world = 0, calls = []\<rparr> =
     Some ([''a'', ''b''], Inl (SdkError ''AccessDenied''),
           \<lparr>world = 2,
              calls = [Sdk (ClientListObjectsV2 (keys_request ''bucket'' '''' 10000 '''')),
                       Sdk (ClientListObjectsV2 (keys_request ''bucket'' '''' 10000 ''b''))]\<rparr>) \<and>
   iterate_dirs_from (python no_codecs) (unreachable ''AccessDenied'') ''bucket'' 0 (AtPage '''' ''+++'') []
       \<lparr>world = demo_world, calls = []\<rparr> =
     Some ([], Inl (SdkError ''AccessDenied''),
           \<lparr>world = demo_world, calls = [Sdk (ClientListObjectsV2 (dirs_request ''bucket'' '''' ''+++''))]\<rparr>) \<and>
   iterate_dirs_from (python no_codecs) (unreachable ''AccessDenied'') ''bucket'' 0
       (InPage '''' [''a/'', ''c/'']
          \<lparr>Contents = None, CommonPrefixes = Some [''a/'', ''c/''], IsTruncated = Some False,
             NextContinuationToken = None\<rparr>) [] \<lparr>world = demo_world, calls = []\<rparr> =
     Some ([''a/''], Inl (SdkError ''AccessDenied''),
           \<lparr>world = demo_world, calls = [Sdk (ClientListObjectsV2 (dirs_request ''bucket'' ''a/'' ''''))]\<rparr>) \<and>
   is_response dirs_then_denied 0 \<and> is_response dirs_then_denied 1 \<and>
   dirs_then_denied 2 = Inl ''AccessDenied'' \<and>
   iterate_dirs (stack_of 1000) (scripted dirs_then_denied (unreachable ''Unused'')) ''bucket'' ''''
       \<lparr>world = 0, calls = []\<rparr> =
     Some ([''a/''], Inl (SdkError ''AccessDenied''),
           \<lparr>world = 3,
              calls = [Sdk (ClientListObjectsV2 (dirs_request ''bucket'' '''' '''')),
                       Sdk (ClientListObjectsV2 (dirs_request ''bucket'' ''a/'' '''')),
                       Sdk (ClientListObjectsV2 (dirs_request ''bucket'' '''' ''+''))]\<rparr>)"
proof -
  have sub: "iterate_dirs_from (python no_codecs) (unreachable ''AccessDenied'') ''bucket'' (Suc 0)
               (AtPage ''a/'' []) ([] @ [''a/'']) \<lparr>world = demo_world, calls = []\<rparr> =
             Some ([''a/''], Inl (SdkError ''AccessDenied''),
                   \<lparr>world = demo_world,
                      calls = [Sdk (ClientListObjectsV2 (dirs_request ''bucket'' ''a/'' ''''))]\<rparr>)"
    "0 < recursion_limit (python no_codecs)"
    by (simp_all add: iterate_dirs_from_at_page call_sdk_def logged_def unreachable_def python_def)
  have ex: "path_exists (python no_codecs) (os_path_dirname ''data/d.txt'') demo_world"
    by (simp add: python_def python_exists_def os_path_dirname_def rstrip_sep_def Let_def demo_world_def)
  have nex: "\<not> path_exists (python no_codecs) (os_path_dirname ''new/d.txt'') demo_world"
    "os_path_dirname ''new/d.txt'' = ''new''"
    "makedirs (python no_codecs) ''new'' demo_world = (Inr (), demo_world\<lparr>local_dirs := [''new'', ''data'']\<rparr>)"
    by (simp_all add: python_def python_exists_def python_makedirs_def path_parents_def os_path_dirname_def
          rstrip_sep_def Let_def demo_world_def upt_rec)
  have script: "\<forall>i<1. page_truncated then_denied i = Some True \<and> page_keys then_denied i \<noteq> []"
    "then_denied 1 = Inl ''AccessDenied''"
    by (simp_all add: then_denied_def page_truncated_def page_keys_def response_keys_def)
  have dirs: "is_response dirs_then_denied 0" "is_response dirs_then_denied 1"
    "dirs_then_denied 2 = Inl ''AccessDenied''"
    by (simp_all add: dirs_then_denied_def is_response_def)
  have run: "iterate_dirs (stack_of 1000) (scripted dirs_then_denied (unreachable ''Unused'')) ''bucket'' ''''
       \<lparr>world = 0, calls = []\<rparr> =
     Some ([''a/''], Inl (SdkError ''AccessDenied''),
           \<lparr>world = 3,
              calls = [Sdk (ClientListObjectsV2 (dirs_request ''bucket'' '''' '''')),
                       Sdk (ClientListObjectsV2 (dirs_request ''bucket'' ''a/'' '''')),
                       Sdk (ClientListObjectsV2 (dirs_request ''bucket'' '''' ''+''))]\<rparr>)"
    by (simp add: iterate_dirs_def iterate_dirs_from_at_page iterate_dirs_from_page_done
          iterate_dirs_from_subdir call_sdk_def logged_def scripted_def dirs_then_denied_def
          response_subdirs_def stack_of_def numeral_3_eq_3)
  note a = sdk_errors_surface_unmodified[where self = "unreachable ''AccessDenied''"
      and s = "\<lparr>world = demo_world, calls = []\<rparr>" and e = "''AccessDenied''" and w' = demo_world
      and rt = "python no_codecs" and bucket = "''bucket''" and key = "''d''" and decode = "''utf-8''"
      and content = "[104, 105]" and trg_bucket = "''t''" and trg_key = "''copy''"
      and src_bucket = "''bucket''" and src_key = "''d''" and local_file_path = "''data/d.txt''"
      and n = 1 and rs = then_denied and other = "unreachable ''Unused''" and prefix = "''''"
      and token = "''+++''" and yielded = "[]" and subdir = "''a/''" and rest = "[''c/'']"
      and depth = 0
      and yielded' = "[''a/'']" and x = "SdkError ''AccessDenied''"
      and s' = "\<lparr>world = demo_world,
                    calls = [Sdk (ClientListObjectsV2 (dirs_request ''bucket'' ''a/'' ''''))]\<rparr>"
      and response = "\<lparr>Contents = None, CommonPrefixes = Some [''a/'', ''c/''], IsTruncated = Some False,
             NextContinuationToken = None\<rparr>"]
  note b = sdk_errors_surface_unmodified[where self = "unreachable ''AccessDenied''"
      and s = "\<lparr>world = demo_world, calls = []\<rparr>" and e = "''AccessDenied''"
      and w' = "demo_world\<lparr>local_dirs := [''new'', ''data'']\<rparr>"
      and wm = "demo_world\<lparr>local_dirs := [''new'', ''data'']\<rparr>"
      and rt = "python no_codecs" and bucket = "''bucket''" and key = "''d''"
      and local_file_path = "''new/d.txt''"]
  note c = sdk_errors_surface_unmodified[where n = 2 and rs = dirs_then_denied
      and e = "''AccessDenied''" and other = "unreachable ''Unused''" and bucket = "''bucket''"
      and prefix = "''''" and stack = "stack_of 1000"]
  from a sub ex script b nex dirs run c show ?thesis
    by (simp add: unreachable_def os_path_join_def page_keys_def response_keys_def then_denied_def
          keys_calls_def keys_cursor_def upt_rec numeral_2_eq_2)
qed

subsection \<open>Directory iteration against a sequence of responses\<close>

text \<open>Every request of a page adds a call to the log, and nothing removes one.\<close>

lemma iterate_dirs_from_calls:
  assumes "iterate_dirs_from rt h b d pos ys s = Some y"
  shows "length (calls s) + (case pos of AtPage p t \<Rightarrow> 1 | InPage p ds r \<Rightarrow> 0)
           \<le> length (calls (snd (snd y)))"
  using assms
proof (induct rule: iterate_dirs_from.raw_induct[rotated 1, consumes 1, case_names step])
  case (step run rt h b d pos ys s y)
  show ?case
  proof (cases pos)
    case (AtPage p t)
    with step(2) show ?thesis
      by (auto simp: call_sdk_def logged_def split: sum.splits prod.splits dest!: step(1))
  next
    case (InPage p ds r)
    show ?thesis
    proof (cases ds)
      case Nil
      with InPage step(2) show ?thesis
        by (auto split: option.splits dest!: step(1))
    next
      case (Cons sub rest)
      show ?thesis
      proof (cases "recursion_limit rt \<le> d")
        case True
        with InPage Cons step(2) show ?thesis by auto
      next
        case False
        with InPage Cons step(2) obtain ys' out s' where
          sub: "run rt h b (Suc d) (AtPage sub []) (ys @ [sub]) s = Some (ys', out, s')"
          and rest: "(case out of Inl x \<Rightarrow> Some (ys', Inl x, s')
                      | Inr u \<Rightarrow> run rt h b d (InPage p rest r) ys' s') = Some y"
          by (auto simp: bind_eq_Some_conv)
        from step(1)[OF sub] have 1: "length (calls s) < length (calls s')" by simp
        show ?thesis
        proof (cases out)
          case (Inl x)
          with rest 1 InPage show ?thesis by auto
        next
          case (Inr u)
          with rest have "run rt h b d (InPage p rest r) ys' s' = Some y" by simp
          from step(1)[OF this] 1 InPage show ?thesis by simp
        qed
      qed
    qed
  qed
qed

lemma dirs_step_empty_page:
  assumes "rs k = Inr r" "response_subdirs r = []"
  shows "iterate_dirs_from rt (scripted rs self) b d (AtPage p t) ys \<lparr>world = k, calls = cs\<rparr> =
         (case NextContinuationToken r of
            Some token \<Rightarrow>
              iterate_dirs_from rt (scripted rs self) b d (AtPage p token) ys
                \<lparr>world = Suc k, calls = cs @ [Sdk (ClientListObjectsV2 (dirs_request b p t))]\<rparr>
          | None \<Rightarrow>
              Some (ys, Inr (), \<lparr>world = Suc k, calls = cs @ [Sdk (ClientListObjectsV2 (dirs_request b p t))]\<rparr>))"
  using assms
  by (simp add: iterate_dirs_from_at_page iterate_dirs_from_page_done call_sdk_def logged_def)

lemma dirs_calls_Suc:
  "dirs_calls rs b p t k (Suc n) =
     dirs_calls rs b p t k n @
     [Sdk (ClientListObjectsV2
            (if n = 0 then dirs_request b p t
             else \<lparr>Bucket = b, Prefix = p, Delimiter = Some ''/'', MaxKeys = None, StartAfter = None,
                   ContinuationToken = page_token rs (k + n - 1)\<rparr>))]"
  by (simp add: dirs_calls_def)

lemma dirs_request_token:
  assumes "\<forall>i<n. page_token rs (k + i) \<noteq> None \<and> page_token rs (k + i) \<noteq> Some []"
  shows "dirs_request b p (dirs_token rs t k n) =
     (if n = 0 then dirs_request b p t
      else \<lparr>Bucket = b, Prefix = p, Delimiter = Some ''/'', MaxKeys = None, StartAfter = None,
            ContinuationToken = page_token rs (k + n - 1)\<rparr>)"
proof (cases n)
  case 0
  then show ?thesis by (simp add: dirs_token_def)
next
  case (Suc m)
  with assms have "page_token rs (k + m) \<noteq> None \<and> page_token rs (k + m) \<noteq> Some []" by simp
  with Suc show ?thesis
    by (auto simp: dirs_request_def dirs_token_def split: option.splits)
qed

text \<open>
  Through \<open>n\<close> pages without common prefixes, each with a token: the run is where it was,
  \<open>n\<close> calls later, with the token of the last response in \<open>continuation_token\<close>.
\<close>

lemma dirs_run:
  assumes "\<forall>i<n. is_response rs (k + i) \<and> page_subdirs rs (k + i) = []
                  \<and> page_token rs (k + i) \<noteq> None \<and> page_token rs (k + i) \<noteq> Some []"
  shows "iterate_dirs_from rt (scripted rs self) b d (AtPage p t) ys \<lparr>world = k, calls = cs\<rparr> =
         iterate_dirs_from rt (scripted rs self) b d (AtPage p (dirs_token rs t k n)) ys
           \<lparr>world = k + n, calls = cs @ dirs_calls rs b p t k n\<rparr>"
  using assms
proof (induction n)
  case 0
  then show ?case by (simp add: dirs_calls_def dirs_token_def)
next
  case (Suc n)
  then have "is_response rs (k + n) \<and> page_subdirs rs (k + n) = []
             \<and> page_token rs (k + n) \<noteq> None \<and> page_token rs (k + n) \<noteq> Some []"
    by simp
  then obtain r u where r: "rs (k + n) = Inr r" "response_subdirs r = []"
      "NextContinuationToken r = Some u" "u \<noteq> []"
    by (cases "rs (k + n)") (auto simp: is_response_def page_subdirs_def page_token_def)
  have req: "dirs_request b p (dirs_token rs t k n) =
     (if n = 0 then dirs_request b p t
      else \<lparr>Bucket = b, Prefix = p, Delimiter = Some ''/'', MaxKeys = None, StartAfter = None,
            ContinuationToken = page_token rs (k + n - 1)\<rparr>)"
    by (rule dirs_request_token) (use Suc.prems in simp)
  from Suc have "iterate_dirs_from rt (scripted rs self) b d (AtPage p t) ys \<lparr>world = k, calls = cs\<rparr> =
         iterate_dirs_from rt (scripted rs self) b d (AtPage p (dirs_token rs t k n)) ys
           \<lparr>world = k + n, calls = cs @ dirs_calls rs b p t k n\<rparr>" by simp
  also have "\<dots> = iterate_dirs_from rt (scripted rs self) b d (AtPage p (dirs_token rs t k (Suc n))) ys
           \<lparr>world = k + Suc n, calls = cs @ dirs_calls rs b p t k (Suc n)\<rparr>"
  proof -
    have t: "dirs_token rs t k (Suc n) = u" using r by (simp add: dirs_token_def page_token_def)
    show ?thesis
      unfolding dirs_step_empty_page[of rs "k + n" r, OF r(1,2)] req t dirs_calls_Suc
      using r(3) by simp
  qed
  finally show ?case .
qed

text \<open>
  And at the first page without common prefixes after them, the run ends there if and only
  if the response carries no token.
\<close>

lemma dirs_run_end:
  assumes pre: "\<forall>i<n. is_response rs (k + i) \<and> page_subdirs rs (k + i) = []
                  \<and> page_token rs (k + i) \<noteq> None \<and> page_token rs (k + i) \<noteq> Some []"
      and last: "is_response rs (k + n)" "page_subdirs rs (k + n) = []"
  shows "page_token rs (k + n) = None \<longleftrightarrow>
         iterate_dirs_from rt (scripted rs self) b d (AtPage p t) ys \<lparr>world = k, calls = cs\<rparr> =
           Some (ys, Inr (), \<lparr>world = k + Suc n, calls = cs @ dirs_calls rs b p t k (Suc n)\<rparr>)"
proof -
  from last obtain r where r: "rs (k + n) = Inr r" "response_subdirs r = []"
    by (cases "rs (k + n)") (auto simp: is_response_def page_subdirs_def)
  have run: "iterate_dirs_from rt (scripted rs self) b d (AtPage p t) ys \<lparr>world = k, calls = cs\<rparr> =
      (case NextContinuationToken r of
         Some token \<Rightarrow>
           iterate_dirs_from rt (scripted rs self) b d (AtPage p token) ys
             \<lparr>world = Suc (k + n), calls = (cs @ dirs_calls rs b p t k n) @
                [Sdk (ClientListObjectsV2 (dirs_request b p (dirs_token rs t k n)))]\<rparr>
       | None \<Rightarrow> Some (ys, Inr (), \<lparr>world = Suc (k + n), calls = (cs @ dirs_calls rs b p t k n) @
                [Sdk (ClientListObjectsV2 (dirs_request b p (dirs_token rs t k n)))]\<rparr>))"
    unfolding dirs_run[OF pre] dirs_step_empty_page[of rs "k + n" r, OF r]
    by (rule refl)
  have "\<forall>i<n. page_token rs (k + i) \<noteq> None \<and> page_token rs (k + i) \<noteq> Some []"
    using pre by simp
  then have cs: "(cs @ dirs_calls rs b p t k n) @
                [Sdk (ClientListObjectsV2 (dirs_request b p (dirs_token rs t k n)))] =
            cs @ dirs_calls rs b p t k (Suc n)"
    unfolding dirs_calls_Suc by (simp only: dirs_request_token append_assoc)
  show ?thesis
  proof (cases "NextContinuationToken r")
    case None
    with r run cs show ?thesis by (simp add: page_token_def)
  next
    case (Some token)
    have "iterate_dirs_from rt (scripted rs self) b d (AtPage p token) ys
             \<lparr>world = Suc (k + n), calls = cs @ dirs_calls rs b p t k (Suc n)\<rparr>
          \<noteq> Some (ys, Inr (), \<lparr>world = k + Suc n, calls = cs @ dirs_calls rs b p t k (Suc n)\<rparr>)"
      using iterate_dirs_from_calls[of rt "scripted rs self" b d "AtPage p token" ys
              "\<lparr>world = Suc (k + n), calls = cs @ dirs_calls rs b p t k (Suc n)\<rparr>"]
      by auto
    with Some r run cs show ?thesis by (simp add: page_token_def)
  qed
qed

text \<open>
  C3. A response without common prefixes (none, or an empty list) that carries a
  continuation token does not end the paging. A token is a string that is not empty: the
  empty string is what \<open>continuation_token\<close> holds before the first response.

  If the first \<open>n\<close> responses are such and response \<open>n\<close> has no common prefix either, then
  the run of \<open>iterate_dirs\<close> ends at response \<open>n\<close> if and only if that response carries no
  token, and each call after the first carries the token of the response before it. The
  same holds anywhere in a run: at any depth of the recursion, whatever has been yielded
  and logged so far, from any response of the sequence on and with any value of
  \<open>continuation_token\<close>. At any level, once the common prefixes of a page have been
  visited, the run of that level ends there if and only if the response of the page
  carries no token. And for every client: after a response without common prefixes that
  carries a token, the next thing the run does is the call with that token, under the same
  prefix, with what was yielded unchanged.
\<close>

theorem iterate_dirs_pages_without_prefixes:
  "((\<forall>i<n. is_response rs i \<and> page_subdirs rs i = [] \<and> page_token rs i \<noteq> None
            \<and> page_token rs i \<noteq> Some [])
      \<and> is_response rs n \<and> page_subdirs rs n = [] \<longrightarrow>
      (page_token rs n = None \<longleftrightarrow>
       iterate_dirs stack (scripted rs other) bucket prefix \<lparr>world = 0, calls = []\<rparr> =
         Some ([], Inr (), \<lparr>world = Suc n, calls = dirs_calls rs bucket prefix [] 0 (Suc n)\<rparr>))) \<and>
   ((\<forall>i<n. is_response rs (k + i) \<and> page_subdirs rs (k + i) = [] \<and> page_token rs (k + i) \<noteq> None
            \<and> page_token rs (k + i) \<noteq> Some [])
      \<and> is_response rs (k + n) \<and> page_subdirs rs (k + n) = [] \<longrightarrow>
      (page_token rs (k + n) = None \<longleftrightarrow>
       iterate_dirs_from stack (scripted rs other) bucket depth (AtPage prefix token) yielded
           \<lparr>world = k, calls = cs\<rparr> =
         Some (yielded, Inr (),
               \<lparr>world = k + Suc n, calls = cs @ dirs_calls rs bucket prefix token k (Suc n)\<rparr>))) \<and>
   (NextContinuationToken response = None \<longleftrightarrow>
      iterate_dirs_from rt self bucket depth (InPage prefix [] response) yielded s =
        Some (yielded, Inr (), s)) \<and>
   (list_objects_v2 (client self) (dirs_request bucket prefix token) (world s) = (Inr response, w')
      \<and> response_subdirs response = [] \<and> NextContinuationToken response = Some next_token
      \<and> next_token \<noteq> [] \<longrightarrow>
      iterate_dirs_from rt self bucket depth (AtPage prefix token) yielded s =
        (case list_objects_v2 (client self)
                \<lparr>Bucket = bucket, Prefix = prefix, Delimiter = Some ''/'', MaxKeys = None,
                 StartAfter = None, ContinuationToken = Some next_token\<rparr> w' of
           (Inl e, w'') \<Rightarrow>
             Some (yielded, Inl (SdkError e),
                   \<lparr>world = w'',
                      calls = calls s @
                        [Sdk (ClientListObjectsV2 (dirs_request bucket prefix token)),
                         Sdk (ClientListObjectsV2
                                \<lparr>Bucket = bucket, Prefix = prefix, Delimiter = Some ''/'', MaxKeys = None,
                                 StartAfter = None, ContinuationToken = Some next_token\<rparr>)]\<rparr>)
         | (Inr following, w'') \<Rightarrow>
             iterate_dirs_from rt self bucket depth
               (InPage prefix (response_subdirs following) following) yielded
               \<lparr>world = w'',
                  calls = calls s @
                    [Sdk (ClientListObjectsV2 (dirs_request bucket prefix token)),
                     Sdk (ClientListObjectsV2
                            \<lparr>Bucket = bucket, Prefix = prefix, Delimiter = Some ''/'', MaxKeys = None,
                             StartAfter = None, ContinuationToken = Some next_token\<rparr>)]\<rparr>))"
proof (intro conjI impI)
  assume a: "(\<forall>i<n. is_response rs i \<and> page_subdirs rs i = [] \<and> page_token rs i \<noteq> None
            \<and> page_token rs i \<noteq> Some [])
      \<and> is_response rs n \<and> page_subdirs rs n = []"
  then have "\<forall>i<n. is_response rs (0 + i) \<and> page_subdirs rs (0 + i) = []
                  \<and> page_token rs (0 + i) \<noteq> None \<and> page_token rs (0 + i) \<noteq> Some []"
    "is_response rs (0 + n)" "page_subdirs rs (0 + n) = []" by simp_all
  from dirs_run_end[OF this, of stack other bucket 0 prefix "[]" "[]" "[]"]
  show "page_token rs n = None \<longleftrightarrow>
       iterate_dirs stack (scripted rs other) bucket prefix \<lparr>world = 0, calls = []\<rparr> =
         Some ([], Inr (), \<lparr>world = Suc n, calls = dirs_calls rs bucket prefix [] 0 (Suc n)\<rparr>)"
    by (simp add: iterate_dirs_def)
next
  assume a: "(\<forall>i<n. is_response rs (k + i) \<and> page_subdirs rs (k + i) = [] \<and> page_token rs (k + i) \<noteq> None
            \<and> page_token rs (k + i) \<noteq> Some [])
      \<and> is_response rs (k + n) \<and> page_subdirs rs (k + n) = []"
  then have "\<forall>i<n. is_response rs (k + i) \<and> page_subdirs rs (k + i) = []
                  \<and> page_token rs (k + i) \<noteq> None \<and> page_token rs (k + i) \<noteq> Some []"
    "is_response rs (k + n)" "page_subdirs rs (k + n) = []" by simp_all
  then show "page_token rs (k + n) = None \<longleftrightarrow>
       iterate_dirs_from stack (scripted rs other) bucket depth (AtPage prefix token) yielded
           \<lparr>world = k, calls = cs\<rparr> =
         Some (yielded, Inr (),
               \<lparr>world = k + Suc n, calls = cs @ dirs_calls rs bucket prefix token k (Suc n)\<rparr>)"
    by (rule dirs_run_end)
next
  show "NextContinuationToken response = None \<longleftrightarrow>
      iterate_dirs_from rt self bucket depth (InPage prefix [] response) yielded s =
        Some (yielded, Inr (), s)"
  proof (cases "NextContinuationToken response")
    case None
    then show ?thesis by (simp add: iterate_dirs_from_page_done)
  next
    case (Some t)
    have "iterate_dirs_from rt self bucket depth (AtPage prefix t) yielded s \<noteq> Some (yielded, Inr (), s)"
      using iterate_dirs_from_calls[of rt self bucket depth "AtPage prefix t" yielded s] by auto
    with Some show ?thesis by (simp add: iterate_dirs_from_page_done)
  qed
next
  assume a: "list_objects_v2 (client self) (dirs_request bucket prefix token) (world s) = (Inr response, w')
      \<and> response_subdirs response = [] \<and> NextContinuationToken response = Some next_token
      \<and> next_token \<noteq> []"
  then have req: "dirs_request bucket prefix next_token =
      \<lparr>Bucket = bucket, Prefix = prefix, Delimiter = Some ''/'', MaxKeys = None,
       StartAfter = None, ContinuationToken = Some next_token\<rparr>"
    by (simp add: dirs_request_def)
  from a show "iterate_dirs_from rt self bucket depth (AtPage prefix token) yielded s =
        (case list_objects_v2 (client self)
                \<lparr>Bucket = bucket, Prefix = prefix, Delimiter = Some ''/'', MaxKeys = None,
                 StartAfter = None, ContinuationToken = Some next_token\<rparr> w' of
           (Inl e, w'') \<Rightarrow>
             Some (yielded, Inl (SdkError e),
                   \<lparr>world = w'',
                      calls = calls s @
                        [Sdk (ClientListObjectsV2 (dirs_request bucket prefix token)),
                         Sdk (ClientListObjectsV2
                                \<lparr>Bucket = bucket, Prefix = prefix, Delimiter = Some ''/'', MaxKeys = None,
                                 StartAfter = None, ContinuationToken = Some next_token\<rparr>)]\<rparr>)
         | (Inr following, w'') \<Rightarrow>
             iterate_dirs_from rt self bucket depth
               (InPage prefix (response_subdirs following) following) yielded
               \<lparr>world = w'',
                  calls = calls s @
                    [Sdk (ClientListObjectsV2 (dirs_request bucket prefix token)),
                     Sdk (ClientListObjectsV2
                            \<lparr>Bucket = bucket, Prefix = prefix, Delimiter = Some ''/'', MaxKeys = None,
                             StartAfter = None, ContinuationToken = Some next_token\<rparr>)]\<rparr>)"
    unfolding req[symmetric]
    by (simp add: iterate_dirs_from_at_page[of rt self bucket depth prefix token]
          iterate_dirs_from_at_page[of rt self bucket depth prefix next_token]
          iterate_dirs_from_page_done call_sdk_def logged_def split: prod.splits sum.splits)
qed

theorem iterate_dirs_pages_without_prefixes_witness:
  "iterate_dirs (stack_of 0) (scripted token_pages (unreachable ())) ''bucket'' ''logs/''
       \<lparr>world = 0, calls = []\<rparr> =
     Some ([], Inr (),
           \<lparr>world = 3,
              calls = [Sdk (ClientListObjectsV2
                         \<lparr>Bucket = ''bucket'', Prefix = ''logs/'', Delimiter = Some ''/'', MaxKeys = None,
                          StartAfter = None, ContinuationToken = None\<rparr>),
                       Sdk (ClientListObjectsV2
                         \<lparr>Bucket = ''bucket'', Prefix = ''logs/'', Delimiter = Some ''/'', MaxKeys = None,
                          StartAfter = None, ContinuationToken = Some ''+''\<rparr>),
                       Sdk (ClientListObjectsV2
                         \<lparr>Bucket = ''bucket'', Prefix = ''logs/'', Delimiter = Some ''/'', MaxKeys = None,
                          StartAfter = None, ContinuationToken = Some ''++''\<rparr>)]\<rparr>) \<and>
   iterate_dirs_from (stack_of 5) (scripted late_token_pages (unreachable ())) ''bucket'' 2
       (AtPage ''logs/a/'' []) [''logs/'', ''logs/a/''] \<lparr>world = 4, calls = [Sdk ClientListBuckets]\<rparr> =
     Some ([''logs/'', ''logs/a/''], Inr (),
           \<lparr>world = 7,
              calls = [Sdk ClientListBuckets,
                       Sdk (ClientListObjectsV2
                         \<lparr>Bucket = ''bucket'', Prefix = ''logs/a/'', Delimiter = Some ''/'', MaxKeys = None,
                          StartAfter = None, ContinuationToken = None\<rparr>),
                       Sdk (ClientListObjectsV2
                         \<lparr>Bucket = ''bucket'', Prefix = ''logs/a/'', Delimiter = Some ''/'', MaxKeys = None,
                          StartAfter = None, ContinuationToken = Some ''+''\<rparr>),
                       Sdk (ClientListObjectsV2
                         \<lparr>Bucket = ''bucket'', Prefix = ''logs/a/'', Delimiter = Some ''/'', MaxKeys = None,
                          StartAfter = None, ContinuationToken = Some ''++''\<rparr>)]\<rparr>) \<and>
   iterate_dirs_from (stack_of 5) (unreachable ()) ''bucket'' 1
      (InPage ''logs/'' []
         \<lparr>Contents = Some [''y''], CommonPrefixes = None, IsTruncated = Some False,
          NextContinuationToken = None\<rparr>) [''logs/a/''] \<lparr>world = demo_world, calls = []\<rparr> =
     Some ([''logs/a/''], Inr (), \<lparr>world = demo_world, calls = []\<rparr>) \<and>
   iterate_dirs_from (stack_of 5) (scripted token_pages (unreachable ())) ''bucket'' 1
       (AtPage ''logs/'' []) [''logs/''] \<lparr>world = 0, calls = []\<rparr> =
     iterate_dirs_from (stack_of 5) (scripted token_pages (unreachable ())) ''bucket'' 1
       (InPage ''logs/'' []
          \<lparr>Contents = None, CommonPrefixes = Some [], IsTruncated = Some True,
           NextContinuationToken = Some ''++''\<rparr>) [''logs/'']
       \<lparr>world = 2,
          calls = [Sdk (ClientListObjectsV2
                     \<lparr>Bucket = ''bucket'', Prefix = ''logs/'', Delimiter = Some ''/'', MaxKeys = None,
                      StartAfter = None, ContinuationToken = None\<rparr>),
                   Sdk (ClientListObjectsV2
                     \<lparr>Bucket = ''bucket'', Prefix = ''logs/'', Delimiter = Some ''/'', MaxKeys = None,
                      StartAfter = None, ContinuationToken = Some ''+''\<rparr>)]\<rparr>"
proof -
  note a = iterate_dirs_pages_without_prefixes[where n = 2 and rs = token_pages
          and other = "unreachable ()" and bucket = "''bucket''" and prefix = "''logs/''"
          and stack = "stack_of 0"
          and rt = "stack_of 5" and depth = 1
          and self = "unreachable ()" and yielded = "[''logs/a/'']"
          and s = "\<lparr>world = demo_world, calls = []\<rparr>"
          and response = "\<lparr>Contents = Some [''y''], CommonPrefixes = None, IsTruncated = Some False,
                            NextContinuationToken = None\<rparr>", THEN conjunct1]
  note b = iterate_dirs_pages_without_prefixes[where n = 2 and k = 4 and rs = late_token_pages
          and other = "unreachable ()" and bucket = "''bucket''" and prefix = "''logs/a/''"
          and stack = "stack_of 5" and depth = 2 and token = "[]"
          and yielded = "[''logs/'', ''logs/a/'']" and cs = "[Sdk ClientListBuckets]",
          THEN conjunct2, THEN conjunct1]
  note c = iterate_dirs_pages_without_prefixes[where bucket = "''bucket''" and prefix = "''logs/''"
          and rt = "stack_of 5" and depth = 1
          and self = "unreachable ()" and yielded = "[''logs/a/'']"
          and s = "\<lparr>world = demo_world, calls = []\<rparr>"
          and response = "\<lparr>Contents = Some [''y''], CommonPrefixes = None, IsTruncated = Some False,
                            NextContinuationToken = None\<rparr>",
          THEN conjunct2, THEN conjunct2, THEN conjunct1]
  note d = iterate_dirs_pages_without_prefixes[where bucket = "''bucket''" and prefix = "''logs/''"
          and rt = "stack_of 5" and depth = 1 and token = "[]"
          and self = "scripted token_pages (unreachable ())" and yielded = "[''logs/'']"
          and s = "\<lparr>world = 0, calls = []\<rparr>" and w' = 1 and next_token = "''+''"
          and response = "\<lparr>Contents = Some [''x''], CommonPrefixes = None, IsTruncated = Some True,
                            NextContinuationToken = Some ''+''\<rparr>",
          THEN conjunct2, THEN conjunct2, THEN conjunct2]
  have 1: "iterate_dirs (stack_of 0) (scripted token_pages (unreachable ())) ''bucket'' ''logs/''
       \<lparr>world = 0, calls = []\<rparr> =
     Some ([], Inr (),
           \<lparr>world = 3,
              calls = [Sdk (ClientListObjectsV2
                         \<lparr>Bucket = ''bucket'', Prefix = ''logs/'', Delimiter = Some ''/'', MaxKeys = None,
                          StartAfter = None, ContinuationToken = None\<rparr>),
                       Sdk (ClientListObjectsV2
                         \<lparr>Bucket = ''bucket'', Prefix = ''logs/'', Delimiter = Some ''/'', MaxKeys = None,
                          StartAfter = None, ContinuationToken = Some ''+''\<rparr>),
                       Sdk (ClientListObjectsV2
                         \<lparr>Bucket = ''bucket'', Prefix = ''logs/'', Delimiter = Some ''/'', MaxKeys = None,
                          StartAfter = None, ContinuationToken = Some ''++''\<rparr>)]\<rparr>)"
    using a
    by (simp add: token_pages_def is_response_def page_subdirs_def page_token_def response_subdirs_def
          dirs_calls_def dirs_request_def upt_rec numeral_2_eq_2 numeral_3_eq_3 less_Suc_eq)
  have 2: "iterate_dirs_from (stack_of 5) (scripted late_token_pages (unreachable ())) ''bucket'' 2
       (AtPage ''logs/a/'' []) [''logs/'', ''logs/a/''] \<lparr>world = 4, calls = [Sdk ClientListBuckets]\<rparr> =
     Some ([''logs/'', ''logs/a/''], Inr (),
           \<lparr>world = 7,
              calls = [Sdk ClientListBuckets,
                       Sdk (ClientListObjectsV2
                         \<lparr>Bucket = ''bucket'', Prefix = ''logs/a/'', Delimiter = Some ''/'', MaxKeys = None,
                          StartAfter = None, ContinuationToken = None\<rparr>),
                       Sdk (ClientListObjectsV2
                         \<lparr>Bucket = ''bucket'', Prefix = ''logs/a/'', Delimiter = Some ''/'', MaxKeys = None,
                          StartAfter = None, ContinuationToken = Some ''+''\<rparr>),
                       Sdk (ClientListObjectsV2
                         \<lparr>Bucket = ''bucket'', Prefix = ''logs/a/'', Delimiter = Some ''/'', MaxKeys = None,
                          StartAfter = None, ContinuationToken = Some ''++''\<rparr>)]\<rparr>)"
    using b
    by (simp add: late_token_pages_def token_pages_def is_response_def page_subdirs_def page_token_def
          response_subdirs_def dirs_calls_def dirs_request_def upt_rec numeral_2_eq_2 numeral_3_eq_3
          less_Suc_eq)
  have 3: "iterate_dirs_from (stack_of 5) (unreachable ()) ''bucket'' 1
      (InPage ''logs/'' []
         \<lparr>Contents = Some [''y''], CommonPrefixes = None, IsTruncated = Some False,
          NextContinuationToken = None\<rparr>) [''logs/a/''] \<lparr>world = demo_world, calls = []\<rparr> =
     Some ([''logs/a/''], Inr (), \<lparr>world = demo_world, calls = []\<rparr>)"
    using c by simp
  have 4: "iterate_dirs_from (stack_of 5) (scripted token_pages (unreachable ())) ''bucket'' 1
       (AtPage ''logs/'' []) [''logs/''] \<lparr>world = 0, calls = []\<rparr> =
     iterate_dirs_from (stack_of 5) (scripted token_pages (unreachable ())) ''bucket'' 1
       (InPage ''logs/'' []
          \<lparr>Contents = None, CommonPrefixes = Some [], IsTruncated = Some True,
           NextContinuationToken = Some ''++''\<rparr>) [''logs/'']
       \<lparr>world = 2,
          calls = [Sdk (ClientListObjectsV2
                     \<lparr>Bucket = ''bucket'', Prefix = ''logs/'', Delimiter = Some ''/'', MaxKeys = None,
                      StartAfter = None, ContinuationToken = None\<rparr>),
                   Sdk (ClientListObjectsV2
                     \<lparr>Bucket = ''bucket'', Prefix = ''logs/'', Delimiter = Some ''/'', MaxKeys = None,
                      StartAfter = None, ContinuationToken = Some ''+''\<rparr>)]\<rparr>"
    using d
    by (simp add: token_pages_def response_subdirs_def dirs_request_def numeral_2_eq_2)
  from 1 2 3 4 show ?thesis by (intro conjI)
qed

text \<open>
  When \<open>continuation_token\<close> holds the empty string, which is its value before the first
  response, \<open>if continuation_token:\<close> is false and the call carries no token.
\<close>

lemma dirs_request_without_token:
  "dirs_request bucket prefix [] =
     \<lparr>Bucket = bucket, Prefix = prefix, Delimiter = Some ''/'', MaxKeys = None, StartAfter = None,
      ContinuationToken = None\<rparr>"
  by (simp add: dirs_request_def)

subsection \<open>Listing in the model of the service\<close>

lemma map_insort_key: "map f (insort_key f x xs) = insort (f x) (map f xs)"
  by (induction xs) auto

lemma map_sort_key: "map f (sort_key f xs) = sort (map f xs)"
  by (induction xs) (simp_all add: map_insort_key)

lemma key_entries: "(\<forall>e\<in>set es. listed_prefix e = []) \<Longrightarrow> map KeyEntry (map entry_name es) = es"
proof (induction es)
  case Nil
  then show ?case by simp
next
  case (Cons e es)
  then show ?case by (cases e) auto
qed

text \<open>A listing without delimiter: the keys that begin with the prefix and come after the cursor.\<close>

lemma listing_flat:
  assumes "distinct ks"
  shows "listing ks (keys_request bucket pfx m a) =
         map KeyEntry (sort (filter (\<lambda>k. starts_with k pfx \<and> a < k) ks))"
proof -
  let ?fs = "filter (\<lambda>k. starts_with k pfx \<and> a < k) ks"
  let ?es = "sort_key entry_name (map KeyEntry ?fs)"
  have d: "remdups (map KeyEntry ?fs) = map KeyEntry ?fs"
    using assms by (simp add: distinct_map inj_on_def)
  have l: "listing ks (keys_request bucket pfx m a) = ?es"
  proof -
    have "entry_of pfx None = KeyEntry" by (rule ext) (simp add: entry_of_def)
    then show ?thesis unfolding listing_def keys_request_def by (simp add: d)
  qed
  have "map entry_name ?es = sort ?fs"
    by (simp add: map_sort_key o_def)
  moreover have "map KeyEntry (map entry_name ?es) = ?es"
    by (rule key_entries) auto
  ultimately show ?thesis using l by simp
qed

lemma listed_keys_of_keys [simp]: "concat (map listed_key (map KeyEntry ks)) = ks"
  by (induction ks) auto

lemma listed_prefixes_of_keys [simp]: "concat (map listed_prefix (map KeyEntry ks)) = []"
  by (induction ks) auto

text \<open>In a sorted list without repetition, the elements after the one at \<open>i\<close> are those above it.\<close>

lemma filter_above_nth:
  assumes "sorted xs" "distinct xs" "i < length xs"
  shows "filter (\<lambda>k. xs ! i < k) xs = drop (Suc i) xs"
proof -
  have s: "sorted_wrt (<) xs" using assms by (simp add: strict_sorted_iff)
  have xs: "xs = take (Suc i) xs @ drop (Suc i) xs" by simp
  have 1: "filter (\<lambda>k. xs ! i < k) (take (Suc i) xs) = []"
  proof -
    have "\<forall>k\<in>set (take (Suc i) xs). \<not> xs ! i < k"
    proof
      fix k assume "k \<in> set (take (Suc i) xs)"
      then obtain j where j: "j < Suc i" "j < length xs" "k = xs ! j"
        by (auto simp: in_set_conv_nth)
      then have "xs ! j \<le> xs ! i" using assms(1,3) by (simp add: sorted_nth_mono)
      with j show "\<not> xs ! i < k" by simp
    qed
    then show ?thesis by (simp add: filter_empty_conv)
  qed
  have 2: "filter (\<lambda>k. xs ! i < k) (drop (Suc i) xs) = drop (Suc i) xs"
  proof -
    have "\<forall>k\<in>set (drop (Suc i) xs). xs ! i < k"
    proof
      fix k assume "k \<in> set (drop (Suc i) xs)"
      then obtain j where j: "j < length xs - Suc i" "k = xs ! (Suc i + j)"
        by (auto simp: in_set_conv_nth)
      then show "xs ! i < k" using sorted_wrt_nth_less[OF s, of i "Suc i + j"] by simp
    qed
    then show ?thesis by simp
  qed
  have "filter (\<lambda>k. xs ! i < k) xs =
        filter (\<lambda>k. xs ! i < k) (take (Suc i) xs) @ filter (\<lambda>k. xs ! i < k) (drop (Suc i) xs)"
    by (metis xs filter_append)
  with 1 2 show ?thesis by simp
qed
lemma some_unless_empty_simps [simp]:
  "some_unless_empty [] = None" "xs \<noteq> [] \<Longrightarrow> some_unless_empty xs = Some xs"
  by (simp_all add: some_unless_empty_def)

lemma s3_keys_page:
  assumes "map_of (buckets w) bucket = Some objects" "ks = map fst objects" "distinct ks"
  shows "call_sdk (ClientListObjectsV2 (keys_request bucket pfx m a))
           (list_objects_v2 (client s3) (keys_request bucket pfx m a)) \<lparr>world = w, calls = cs\<rparr> =
         (Inr \<lparr>Contents = some_unless_empty (take (min m (page_limit w))
                   (sort (filter (\<lambda>k. starts_with k pfx \<and> a < k) ks))),
               CommonPrefixes = None,
               IsTruncated = Some (min m (page_limit w)
                   < length (filter (\<lambda>k. starts_with k pfx \<and> a < k) ks)),
               NextContinuationToken =
                 (if min m (page_limit w) < length (filter (\<lambda>k. starts_with k pfx \<and> a < k) ks)
                  then Some (token_of (min m (page_limit w))) else None)\<rparr>,
          \<lparr>world = w, calls = cs @ [Sdk (ClientListObjectsV2 (keys_request bucket pfx m a))]\<rparr>)"
proof -
  let ?zs = "sort (filter (\<lambda>k. starts_with k pfx \<and> a < k) ks)"
  have r: "Bucket (keys_request bucket pfx m a) = bucket"
    "ContinuationToken (keys_request bucket pfx m a) = None"
    "MaxKeys (keys_request bucket pfx m a) = Some m"
    by (simp_all add: keys_request_def)
  have li: "listing (map fst objects) (keys_request bucket pfx m a) = map KeyEntry ?zs"
    using listing_flat[OF assms(3)] assms(2) by simp
  have pg: "take (min m (page_limit w)) (drop 0 (map KeyEntry ?zs))
              = map KeyEntry (take (min m (page_limit w)) ?zs)"
    by (simp add: take_map)
  have ln: "length (map KeyEntry ?zs) = length (filter (\<lambda>k. starts_with k pfx \<and> a < k) ks)"
    by simp
  show ?thesis
    unfolding call_sdk_def logged_def s3_def s3_list_objects_v2_def Let_def
    by (simp only: client.simps S3Handler.simps run.simps assms(1) r li option.case pg ln
          listed_keys_of_keys listed_prefixes_of_keys some_unless_empty_simps prod.case sum.case
          add_0)
qed

text \<open>
  A bucket with one key more than a page holds is listed in two calls.
\<close>

lemma iterate_keys_loop_two_pages:
  assumes b: "map_of (buckets w) bucket = Some objects"
      and d: "distinct (map fst objects)" and ne: "[] \<notin> set (map fst objects)"
      and l: "length objects = Suc m" and m: "0 < m" "m \<le> page_limit w"
  shows "iterate_keys_loop s3 bucket [] m [] [] \<lparr>world = w, calls = []\<rparr> =
           Some (sort (map fst objects), Inr (),
                 \<lparr>world = w,
                    calls = [Sdk (ClientListObjectsV2 (keys_request bucket [] m [])),
                             Sdk (ClientListObjectsV2
                                    (keys_request bucket [] m (sort (map fst objects) ! (m - 1))))]\<rparr>)"
proof -
  let ?ks = "map fst objects"
  let ?xs = "sort ?ks"
  have mn: "min m (page_limit w) = m" using m by simp
  have lx: "length ?xs = Suc m" using l by simp
  have f1: "filter (\<lambda>k. starts_with k [] \<and> [] < k) ?ks = ?ks"
  proof -
    have "\<forall>k\<in>set ?ks. starts_with k [] \<and> [] < k"
    proof
      fix k assume "k \<in> set ?ks"
      with ne have "k \<noteq> []" by metis
      then show "starts_with k [] \<and> [] < k" by (cases k) (simp_all add: starts_with_def)
    qed
    then show ?thesis by (simp only: filter_True)
  qed
  have f2: "sort (filter (\<lambda>k. starts_with k [] \<and> ?xs ! (m - 1) < k) ?ks) = drop m ?xs"
  proof -
    have "sort (filter (\<lambda>k. ?xs ! (m - 1) < k) ?ks) = filter (\<lambda>k. ?xs ! (m - 1) < k) ?xs"
      by (simp add: filter_sort)
    also have "\<dots> = drop (Suc (m - 1)) ?xs"
      using d lx m by (intro filter_above_nth) simp_all
    finally show ?thesis using m by (simp add: starts_with_def)
  qed
  have t: "take m ?xs \<noteq> []" using lx m by (cases ?xs) auto
  have lt: "last (take m ?xs) = ?xs ! (m - 1)"
  proof -
    have "length (take m ?xs) = m" using lx by simp
    with last_conv_nth[OF t] have "last (take m ?xs) = take m ?xs ! (m - 1)" by simp
    also have "\<dots> = ?xs ! (m - 1)" using m by (intro nth_take) simp
    finally show ?thesis .
  qed
  have ld: "length (drop m ?xs) = 1" using lx by simp
  then have dn: "drop m ?xs \<noteq> []" by auto
  have l2: "length (filter (\<lambda>k. starts_with k [] \<and> ?xs ! (m - 1) < k) ?ks) = 1"
    using arg_cong[OF f2, of length] ld by simp
  have p1: "call_sdk (ClientListObjectsV2 (keys_request bucket [] m []))
           (list_objects_v2 (client s3) (keys_request bucket [] m [])) \<lparr>world = w, calls = []\<rparr> =
         (Inr \<lparr>Contents = Some (take m ?xs), CommonPrefixes = None, IsTruncated = Some True,
               NextContinuationToken = Some (token_of m)\<rparr>,
          \<lparr>world = w, calls = [Sdk (ClientListObjectsV2 (keys_request bucket [] m []))]\<rparr>)"
    unfolding s3_keys_page[OF b refl d] f1 mn using t l by simp
  have p2: "call_sdk (ClientListObjectsV2 (keys_request bucket [] m (?xs ! (m - 1))))
           (list_objects_v2 (client s3) (keys_request bucket [] m (?xs ! (m - 1))))
           \<lparr>world = w, calls = [Sdk (ClientListObjectsV2 (keys_request bucket [] m []))]\<rparr> =
         (Inr \<lparr>Contents = Some (drop m ?xs), CommonPrefixes = None, IsTruncated = Some False,
               NextContinuationToken = None\<rparr>,
          \<lparr>world = w,
             calls = [Sdk (ClientListObjectsV2 (keys_request bucket [] m [])),
                      Sdk (ClientListObjectsV2 (keys_request bucket [] m (?xs ! (m - 1))))]\<rparr>)"
    unfolding s3_keys_page[OF b refl d] f2 l2 mn using dn m ld by simp
  show ?thesis
    apply (subst iterate_keys_loop.simps)
    apply (simp only: p1 prod.case sum.case list_response.simps option.case if_True
             response_keys_def t if_False append_Nil lt)
    apply (subst iterate_keys_loop.simps)
    apply (simp only: p2 prod.case sum.case list_response.simps option.case if_False
             response_keys_def append_take_drop_id)
    done
qed
text \<open>
  C1. In the model of the service, take a bucket with exactly 10,001 keys and pages of at
  least the 10000 entries that \<open>iterate_keys\<close> asks for. The run ends after exactly two
  listing calls, the second starting after the last key of the first page, and yields the
  keys in their order: a sorted list of the keys of the bucket, with no key twice and none
  left out.
\<close>

theorem iterate_keys_two_listing_calls:
  assumes "map_of (buckets w) bucket = Some objects"
      and "distinct (map fst objects)" and "[] \<notin> set (map fst objects)"
      and "length objects = 10001" and "10000 \<le> page_limit w"
  shows "iterate_keys s3 bucket [] \<lparr>world = w, calls = []\<rparr> =
           Some (sort (map fst objects), Inr (),
                 \<lparr>world = w,
                    calls = [Sdk (ClientListObjectsV2 (keys_request bucket [] 10000 [])),
                             Sdk (ClientListObjectsV2
                                    (keys_request bucket [] 10000 (sort (map fst objects) ! 9999)))]\<rparr>)"
proof -
  have "length objects = Suc 10000" using assms(4) by simp
  from iterate_keys_loop_two_pages[OF assms(1-3) this _ assms(5)] show ?thesis
    by (simp add: iterate_keys_def)
qed

lemma replicate_le: "i \<le> j \<Longrightarrow> replicate i (c::char) \<le> replicate j c"
proof (induction i arbitrary: j)
  case 0
  then show ?case by simp
next
  case (Suc i)
  then show ?case by (cases j) simp_all
qed

lemma many_keys_sorted: "sorted (many_keys n)"
  unfolding many_keys_def
  by (induction n) (auto simp: sorted_append replicate_le simp del: replicate_Suc)

lemma many_keys_distinct: "distinct (many_keys n)"
proof -
  have "inj_on (\<lambda>i. replicate (Suc i) CHR ''k'') (set [0..<n])"
    by (rule inj_onI) (metis length_replicate nat.inject)
  then show ?thesis unfolding many_keys_def by (simp add: distinct_map)
qed

lemma many_keys_facts:
  "length (many_keys n) = n" "[] \<notin> set (many_keys n)"
  "i < n \<Longrightarrow> many_keys n ! i = replicate (Suc i) CHR ''k''"
  "map fst (map (\<lambda>k. (k, [])) (many_keys n)) = many_keys n"
  by (auto simp: many_keys_def o_def)

theorem iterate_keys_two_listing_calls_witness:
  "iterate_keys s3 ''big'' [] \<lparr>world = big_world, calls = []\<rparr> =
     Some (many_keys 10001, Inr (),
           \<lparr>world = big_world,
              calls = [Sdk (ClientListObjectsV2 (keys_request ''big'' [] 10000 [])),
                       Sdk (ClientListObjectsV2
                              (keys_request ''big'' [] 10000 (replicate 10000 CHR ''k'')))]\<rparr>)"
proof -
  let ?objects = "map (\<lambda>k. (k, [])) (many_keys 10001)"
  have 1: "map_of (buckets big_world) ''big'' = Some ?objects" by (simp add: big_world_def)
  have 2: "distinct (map fst ?objects)" "[] \<notin> set (map fst ?objects)"
    unfolding many_keys_facts(4) by (rule many_keys_distinct, rule many_keys_facts(2))
  have 3: "length ?objects = 10001" by (simp only: length_map many_keys_facts(1))
  have 4: "10000 \<le> page_limit big_world" by (simp add: big_world_def)
  have 5: "sort (map fst ?objects) = many_keys 10001"
    unfolding many_keys_facts(4) by (rule sorted_sort_id[OF many_keys_sorted])
  have 6: "many_keys 10001 ! 9999 = replicate (Suc 9999) CHR ''k''"
    by (rule many_keys_facts(3)) simp
  have 7: "Suc 9999 = 10000" by simp
  from iterate_keys_two_listing_calls[OF 1 2 3 4] show ?thesis
    unfolding 5 6 7 .
qed

subsection \<open>Directory iteration in the model of the service\<close>

lemma listing_dirs: "listing ks (dirs_request bucket p t) = dir_entries ks p"
  by (simp add: listing_def dirs_request_def dir_entries_def)

lemma listed_prefix_filter:
  "concat (map listed_prefix es) = map entry_name (filter (\<lambda>e. listed_prefix e \<noteq> []) es)"
proof (induction es)
  case Nil
  then show ?case by simp
next
  case (Cons e es)
  then show ?case by (cases e) simp_all
qed

lemma entry_of_prefix:
  "entry_of p (Some ''/'') k = PrefixEntry q \<longleftrightarrow>
     (\<exists>seg. upto_delimiter ''/'' (drop (length p) k) = Some seg \<and> q = p @ seg)"
  by (auto simp: entry_of_def split: option.splits)

text \<open>The common prefixes of the listing of a prefix are the directories directly under it.\<close>

lemma subdirs_listing: "concat (map listed_prefix (dir_entries ks p)) = subdirs_of ks p"
proof (rule sorted_distinct_set_unique)
  show "sorted (concat (map listed_prefix (dir_entries ks p)))"
    unfolding listed_prefix_filter dir_entries_def by (rule sorted_filter) simp
  show "distinct (concat (map listed_prefix (dir_entries ks p)))"
  proof -
    have "inj_on entry_name {e. listed_prefix e \<noteq> []}"
    proof (rule inj_onI)
      fix x y assume "x \<in> {e. listed_prefix e \<noteq> []}" "y \<in> {e. listed_prefix e \<noteq> []}"
        "entry_name x = entry_name y"
      then show "x = y" by (cases x; cases y) simp_all
    qed
    then have "inj_on entry_name (set (filter (\<lambda>e. listed_prefix e \<noteq> []) (dir_entries ks p)))"
      by (rule inj_on_subset) auto
    then show ?thesis
      unfolding listed_prefix_filter by (simp add: distinct_map dir_entries_def)
  qed
  show "sorted (subdirs_of ks p)" by (simp add: subdirs_of_def)
  show "distinct (subdirs_of ks p)" by (simp add: subdirs_of_def)
  show "set (concat (map listed_prefix (dir_entries ks p))) = set (subdirs_of ks p)"
  proof (intro set_eqI iffI)
    fix q assume "q \<in> set (concat (map listed_prefix (dir_entries ks p)))"
    then obtain e where e: "e \<in> set (dir_entries ks p)" "q \<in> set (listed_prefix e)" by auto
    from e(2) have "e = PrefixEntry q" by (cases e) simp_all
    with e(1) obtain k where "k \<in> set ks" "starts_with k p" "entry_of p (Some ''/'') k = PrefixEntry q"
      by (auto simp: dir_entries_def)
    then show "q \<in> set (subdirs_of ks p)"
      by (auto simp: subdirs_of_def entry_of_prefix intro!: bexI[of _ k])
  next
    fix q assume "q \<in> set (subdirs_of ks p)"
    then obtain k seg where "k \<in> set ks" "starts_with k p"
      "upto_delimiter ''/'' (drop (length p) k) = Some seg" "q = p @ seg"
      by (auto simp: subdirs_of_def split: if_splits option.splits) metis
    then have "k \<in> set ks \<and> starts_with k p \<and> entry_of p (Some ''/'') k = PrefixEntry q"
      by (simp add: entry_of_prefix)
    then have "PrefixEntry q \<in> set (dir_entries ks p)"
      unfolding dir_entries_def by (simp add: image_iff) metis
    then show "q \<in> set (concat (map listed_prefix (dir_entries ks p)))"
      by (auto intro!: bexI[of _ "PrefixEntry q"])
  qed
qed

lemma length_token_of [simp]: "length (token_of n) = n" "token_of n = [] \<longleftrightarrow> n = 0"
  by (simp_all add: token_of_def)

lemma s3_dirs_page:
  assumes "map_of (buckets w) bucket = Some objects" "ks = map fst objects"
  shows "call_sdk (ClientListObjectsV2 (dirs_request bucket p (token_of seen)))
           (list_objects_v2 (client s3) (dirs_request bucket p (token_of seen)))
           \<lparr>world = w, calls = cs\<rparr> =
         (Inr \<lparr>Contents = some_unless_empty (concat (map listed_key
                   (take (min 1000 (page_limit w)) (drop seen (dir_entries ks p))))),
               CommonPrefixes = some_unless_empty (concat (map listed_prefix
                   (take (min 1000 (page_limit w)) (drop seen (dir_entries ks p))))),
               IsTruncated = Some (seen + min 1000 (page_limit w) < length (dir_entries ks p)),
               NextContinuationToken =
                 (if seen + min 1000 (page_limit w) < length (dir_entries ks p)
                  then Some (token_of (seen + min 1000 (page_limit w))) else None)\<rparr>,
          \<lparr>world = w,
             calls = cs @ [Sdk (ClientListObjectsV2 (dirs_request bucket p (token_of seen)))]\<rparr>)"
proof -
  have r: "Bucket (dirs_request bucket p (token_of seen)) = bucket"
    "MaxKeys (dirs_request bucket p (token_of seen)) = None"
    "(case ContinuationToken (dirs_request bucket p (token_of seen)) of
        None \<Rightarrow> 0 | Some token \<Rightarrow> length token) = seen"
    by (simp_all add: dirs_request_def)
  show ?thesis
    unfolding call_sdk_def logged_def s3_def s3_list_objects_v2_def Let_def
    by (simp only: client.simps S3Handler.simps run.simps assms(1) r option.case
          listing_dirs assms(2)[symmetric] prod.case sum.case)
qed

lemma response_subdirs_some_unless_empty [simp]:
  "response_subdirs \<lparr>Contents = c, CommonPrefixes = some_unless_empty ds, IsTruncated = t,
      NextContinuationToken = n\<rparr> = ds"
  by (simp add: response_subdirs_def some_unless_empty_def)
text \<open>
  The directories directly under a prefix depend on the set of keys alone.
\<close>

lemma subdirs_of_set:
  assumes "set ks = K"
  shows "subdirs_of ks p =
     sorted_list_of_set
       (\<Union>k\<in>K. if starts_with k p
                   then (case upto_delimiter ''/'' (drop (length p) k) of
                           None \<Rightarrow> {} | Some seg \<Rightarrow> {p @ seg})
                   else {})"
proof -
  have "set (if starts_with k p
             then (case upto_delimiter ''/'' (drop (length p) k) of
                     None \<Rightarrow> [] | Some seg \<Rightarrow> [p @ seg])
             else []) =
        (if starts_with k p
         then (case upto_delimiter ''/'' (drop (length p) k) of
                 None \<Rightarrow> {} | Some seg \<Rightarrow> {p @ seg})
         else {})" for k
    by (simp only: if_distrib[of set] option.case_distrib[of set] list.set)
  then have "set (concat (map (\<lambda>k. if starts_with k p
                                then (case upto_delimiter ''/'' (drop (length p) k) of
                                        None \<Rightarrow> [] | Some seg \<Rightarrow> [p @ seg])
                                else []) ks)) =
        (\<Union>k\<in>K. if starts_with k p
                   then (case upto_delimiter ''/'' (drop (length p) k) of
                           None \<Rightarrow> {} | Some seg \<Rightarrow> {p @ seg})
                   else {})"
    unfolding assms[symmetric] by (simp only: set_concat set_map image_image)
  then show ?thesis
    unfolding subdirs_of_def by (simp only: sorted_list_of_set_sort_remdups[symmetric])
qed

text \<open>
  What \<open>dir_tree\<close> lists: every directory under the prefix, that is, every beginning of a
  key that is longer than the prefix and ends with the separator.
\<close>

lemma starts_with_iff: "starts_with k p \<longleftrightarrow> (\<exists>t. k = p @ t)"
proof
  assume "starts_with k p"
  then have "k = p @ drop (length p) k"
    unfolding starts_with_def by (metis append_take_drop_id)
  then show "\<exists>t. k = p @ t" ..
next
  assume "\<exists>t. k = p @ t"
  then show "starts_with k p" by (auto simp: starts_with_def)
qed

lemma upto_first_separator:
  "CHR ''/'' \<notin> set a \<Longrightarrow> upto_delimiter ''/'' (a @ ''/'' @ t) = Some (a @ ''/'')"
  by (induction a) (auto simp: starts_with_def)

lemma upto_delimiter_some:
  "upto_delimiter ''/'' r = Some seg \<Longrightarrow> \<exists>a t. seg = a @ ''/'' \<and> r = seg @ t \<and> CHR ''/'' \<notin> set a"
proof (induction r arbitrary: seg)
  case Nil
  then show ?case by simp
next
  case (Cons c r)
  show ?case
  proof (cases "c = CHR ''/''")
    case True
    with Cons.prems have "seg = ''/''" by (simp add: starts_with_def)
    with True show ?thesis by (intro exI[of _ "[]"] exI[of _ r]) simp
  next
    case False
    with Cons.prems obtain seg' where s: "upto_delimiter ''/'' r = Some seg'" "seg = c # seg'"
      by (auto simp: starts_with_def)
    from Cons.IH[OF s(1)] obtain a t where "seg' = a @ ''/''" "r = seg' @ t" "CHR ''/'' \<notin> set a"
      by blast
    with s(2) False show ?thesis
      by (intro exI[of _ "c # a"] exI[of _ t]) simp
  qed
qed

lemma subdirs_of_iff:
  "d \<in> set (subdirs_of ks p) \<longleftrightarrow>
     (\<exists>k\<in>set ks. \<exists>a t. CHR ''/'' \<notin> set a \<and> d = p @ a @ ''/'' \<and> k = d @ t)"
proof
  assume "d \<in> set (subdirs_of ks p)"
  then obtain k seg where k: "k \<in> set ks" "starts_with k p"
      and seg: "upto_delimiter ''/'' (drop (length p) k) = Some seg" and d: "d = p @ seg"
    by (auto simp: subdirs_of_def split: if_splits option.splits) (metis)
  from upto_delimiter_some[OF seg] obtain a t where
    a: "seg = a @ ''/''" "drop (length p) k = seg @ t" "CHR ''/'' \<notin> set a" by blast
  from k(2) have "k = p @ drop (length p) k"
    unfolding starts_with_def by (metis append_take_drop_id)
  with a d have "k = d @ t" "d = p @ a @ ''/''" by simp_all
  with k(1) a(3) show "\<exists>k\<in>set ks. \<exists>a t. CHR ''/'' \<notin> set a \<and> d = p @ a @ ''/'' \<and> k = d @ t"
    by blast
next
  assume "\<exists>k\<in>set ks. \<exists>a t. CHR ''/'' \<notin> set a \<and> d = p @ a @ ''/'' \<and> k = d @ t"
  then obtain k a t where k: "k \<in> set ks" and a: "CHR ''/'' \<notin> set a" "d = p @ a @ ''/''" "k = d @ t"
    by blast
  then have "starts_with k p" "upto_delimiter ''/'' (drop (length p) k) = Some (a @ ''/'')"
    using upto_first_separator[OF a(1), of t] by (simp_all add: starts_with_def)
  with k a(2) show "d \<in> set (subdirs_of ks p)"
    by (auto simp: subdirs_of_def intro!: bexI[of _ k])
qed

lemma under_prefixI:
  "k \<in> set ks \<Longrightarrow> u \<noteq> [] \<Longrightarrow> last u = CHR ''/'' \<Longrightarrow> d = p @ u \<Longrightarrow> k = d @ t \<Longrightarrow>
   d \<in> {d. \<exists>k\<in>set ks. \<exists>u t. u \<noteq> [] \<and> last u = CHR ''/'' \<and> d = p @ u \<and> k = d @ t}"
  by blast

lemma dir_tree_set:
  "set (dir_tree ks p) =
     {d. \<exists>k\<in>set ks. \<exists>u t. u \<noteq> [] \<and> last u = CHR ''/'' \<and> d = p @ u \<and> k = d @ t}"
proof (induction ks p rule: dir_tree.induct)
  case (1 ks p)
  have unfold: "set (dir_tree ks p) = (\<Union>d\<in>set (subdirs_of ks p). insert d (set (dir_tree ks d)))"
    by (subst dir_tree.simps) auto
  show ?case
  proof (intro set_eqI iffI)
    fix x assume "x \<in> set (dir_tree ks p)"
    then obtain d where d: "d \<in> set (subdirs_of ks p)" "x = d \<or> x \<in> set (dir_tree ks d)"
      unfolding unfold by auto
    from d(1) obtain k a t where k: "k \<in> set ks" "d = p @ a @ ''/''" "k = d @ t"
      unfolding subdirs_of_iff by blast
    from d(2) show "x \<in> {d. \<exists>k\<in>set ks. \<exists>u t. u \<noteq> [] \<and> last u = CHR ''/'' \<and> d = p @ u \<and> k = d @ t}"
    proof
      assume "x = d"
      with k show ?thesis by (intro under_prefixI[of k ks "a @ ''/''" x p t]) simp_all
    next
      assume "x \<in> set (dir_tree ks d)"
      then obtain k' u t' where "k' \<in> set ks" "u \<noteq> []" "last u = CHR ''/''" "x = d @ u" "k' = x @ t'"
        unfolding "1.IH"[OF d(1)] by blast
      with k(2) show ?thesis
        by (intro under_prefixI[of k' ks "a @ ''/'' @ u" x p t']) simp_all
    qed
  next
    fix x assume "x \<in> {d. \<exists>k\<in>set ks. \<exists>u t. u \<noteq> [] \<and> last u = CHR ''/'' \<and> d = p @ u \<and> k = d @ t}"
    then obtain k u t where k: "k \<in> set ks" and u: "u \<noteq> []" "last u = CHR ''/''"
        and x: "x = p @ u" "k = x @ t"
      by blast
    from u have "CHR ''/'' \<in> set u" by (metis last_in_set)
    then obtain a u2 where s: "u = a @ CHR ''/'' # u2" "CHR ''/'' \<notin> set a"
      by (meson split_list_first)
    let ?d = "p @ a @ ''/''"
    have d: "?d \<in> set (subdirs_of ks p)"
      unfolding subdirs_of_iff using k x s by (intro bexI[of _ k] exI[of _ a] exI[of _ "u2 @ t"]) simp_all
    show "x \<in> set (dir_tree ks p)"
    proof (cases "u2 = []")
      case True
      with s x have "x = ?d" by simp
      with d show ?thesis unfolding unfold by blast
    next
      case False
      with s u(2) have "last u2 = CHR ''/''" by simp
      with False x s k have "x \<in> set (dir_tree ks ?d)"
        unfolding "1.IH"[OF d] by (intro under_prefixI[of k ks u2 x ?d t]) simp_all
      with d show ?thesis unfolding unfold by blast
    qed
  qed
qed

text \<open>
  The nesting under a directory is one less than the nesting under the prefix it is
  directly under.
\<close>

lemma foldr_max_le: "foldr max xs (0::nat) \<le> n \<longleftrightarrow> (\<forall>x\<in>set xs. x \<le> n)"
  by (induction xs) auto

lemma dir_depth_le:
  "dir_depth ks p \<le> n \<longleftrightarrow>
     (\<forall>k\<in>set ks. starts_with k p \<longrightarrow> length (filter (\<lambda>c. c = CHR ''/'') (drop (length p) k)) \<le> n)"
  by (auto simp: dir_depth_def foldr_max_le)

lemma dir_depth_subdir:
  assumes "d \<in> set (subdirs_of ks p)" "dir_depth ks p \<le> n"
  shows "Suc (dir_depth ks d) \<le> n"
proof -
  from assms(1) obtain k a t where k: "k \<in> set ks" and a: "d = p @ a @ ''/''" "k = d @ t"
    unfolding subdirs_of_iff by blast
  have below: "starts_with k' p \<and>
               length (filter (\<lambda>c. c = CHR ''/'') (drop (length p) k')) =
               Suc (length (filter (\<lambda>c. c = CHR ''/'') (drop (length d) k')) + length (filter (\<lambda>c. c = CHR ''/'') a))"
    if "starts_with k' d" for k'
  proof -
    from that obtain t' where "k' = d @ t'" unfolding starts_with_iff by blast
    with a(1) show ?thesis by (simp add: starts_with_def)
  qed
  have "starts_with k d" using a(2) by (simp add: starts_with_def)
  from below[OF this] k assms(2) have "0 < n"
    unfolding dir_depth_le by fastforce
  moreover have "dir_depth ks d \<le> n - 1"
    unfolding dir_depth_le
  proof (intro ballI impI)
    fix k' assume k': "k' \<in> set ks" "starts_with k' d"
    from below[OF k'(2)] k'(1) assms(2)
    have "Suc (length (filter (\<lambda>c. c = CHR ''/'') (drop (length d) k'))) \<le> n"
      unfolding dir_depth_le by fastforce
    then show "length (filter (\<lambda>c. c = CHR ''/'') (drop (length d) k')) \<le> n - 1" by simp
  qed
  ultimately show ?thesis by simp
qed

text \<open>
  The \<open>for\<close> loop over the common prefixes of a page, given what the recursive calls do.
\<close>

lemma dirs_for_loop:
  assumes "\<And>sub ys cs. sub \<in> set ds \<Longrightarrow>
             \<exists>cs'. iterate_dirs_from rt s3 b (Suc d) (AtPage sub []) ys \<lparr>world = w, calls = cs\<rparr> =
                     Some (ys @ dir_tree ks sub, Inr (), \<lparr>world = w, calls = cs'\<rparr>)"
      and "ds \<noteq> [] \<Longrightarrow> d < recursion_limit rt"
  shows "\<exists>cs'. iterate_dirs_from rt s3 b d (InPage p ds resp) ys \<lparr>world = w, calls = cs\<rparr> =
                iterate_dirs_from rt s3 b d (InPage p [] resp)
                  (ys @ concat (map (\<lambda>d. d # dir_tree ks d) ds)) \<lparr>world = w, calls = cs'\<rparr>"
  using assms
proof (induction ds arbitrary: ys cs)
  case Nil
  show ?case by (rule exI[of _ cs]) simp
next
  case (Cons sub rest)
  have sub: "sub \<in> set (sub # rest)" by simp
  have lim: "\<not> recursion_limit rt \<le> d" using Cons.prems(2) by simp
  have r: "\<exists>cs'. iterate_dirs_from rt s3 b (Suc d) (AtPage d' []) ys \<lparr>world = w, calls = cs\<rparr> =
                     Some (ys @ dir_tree ks d', Inr (), \<lparr>world = w, calls = cs'\<rparr>)"
    if "d' \<in> set rest" for d' ys cs
    by (rule Cons.prems(1)) (simp add: that)
  from Cons.prems(1)[OF sub, of "ys @ [sub]" cs] obtain cs1 where
    1: "iterate_dirs_from rt s3 b (Suc d) (AtPage sub []) (ys @ [sub]) \<lparr>world = w, calls = cs\<rparr> =
          Some ((ys @ [sub]) @ dir_tree ks sub, Inr (), \<lparr>world = w, calls = cs1\<rparr>)"
    by (elim exE)
  have "\<exists>cs'. iterate_dirs_from rt s3 b d (InPage p rest resp) ((ys @ [sub]) @ dir_tree ks sub)
          \<lparr>world = w, calls = cs1\<rparr> =
        iterate_dirs_from rt s3 b d (InPage p [] resp)
          (((ys @ [sub]) @ dir_tree ks sub) @ concat (map (\<lambda>d. d # dir_tree ks d) rest))
          \<lparr>world = w, calls = cs'\<rparr>"
  proof (rule Cons.IH)
    show "rest \<noteq> [] \<Longrightarrow> d < recursion_limit rt" using lim by simp
  qed (rule r)
  then obtain cs2 where
    2: "iterate_dirs_from rt s3 b d (InPage p rest resp) ((ys @ [sub]) @ dir_tree ks sub)
          \<lparr>world = w, calls = cs1\<rparr> =
        iterate_dirs_from rt s3 b d (InPage p [] resp)
          (((ys @ [sub]) @ dir_tree ks sub) @ concat (map (\<lambda>d. d # dir_tree ks d) rest))
          \<lparr>world = w, calls = cs2\<rparr>"
    by (elim exE)
  show ?case
    apply (rule exI[of _ cs2])
    apply (subst iterate_dirs_from_subdir)
    apply (simp only: lim if_False 1 Option.bind.simps prod.case sum.case 2)
    apply simp
    done
qed

text \<open>
  The \<open>while\<close> loop over the pages of a prefix, given what the recursive calls do: from
  the page that begins after \<open>seen\<close> entries, the run yields the directories under each
  common prefix that is left, and ends.
\<close>

lemma dirs_pages:
  assumes b: "map_of (buckets w) bucket = Some objects" "ks = map fst objects"
      and pl: "0 < page_limit w"
      and sub: "\<And>sub ys cs. sub \<in> set (subdirs_of ks p) \<Longrightarrow>
             \<exists>cs'. iterate_dirs_from rt s3 bucket (Suc d) (AtPage sub []) ys \<lparr>world = w, calls = cs\<rparr> =
                     Some (ys @ dir_tree ks sub, Inr (), \<lparr>world = w, calls = cs'\<rparr>)"
      and lim: "subdirs_of ks p \<noteq> [] \<Longrightarrow> d < recursion_limit rt"
  shows "\<exists>cs'. iterate_dirs_from rt s3 bucket d (AtPage p (token_of seen)) ys \<lparr>world = w, calls = cs\<rparr> =
           Some (ys @ concat (map (\<lambda>d. d # dir_tree ks d)
                               (concat (map listed_prefix (drop seen (dir_entries ks p))))),
                 Inr (), \<lparr>world = w, calls = cs'\<rparr>)"
proof (induction "length (dir_entries ks p) - seen" arbitrary: seen ys cs rule: less_induct)
  case less
  let ?es = "dir_entries ks p"
  let ?n = "min 1000 (page_limit w)"
  let ?page = "take ?n (drop seen ?es)"
  let ?ds = "concat (map listed_prefix ?page)"
  let ?more = "seen + ?n < length ?es"
  let ?resp = "\<lparr>Contents = some_unless_empty (concat (map listed_key ?page)),
               CommonPrefixes = some_unless_empty ?ds,
               IsTruncated = Some ?more,
               NextContinuationToken = (if ?more then Some (token_of (seen + ?n)) else None)\<rparr>"
  let ?ys1 = "ys @ concat (map (\<lambda>d. d # dir_tree ks d) ?ds)"
  have n0: "0 < ?n" using pl by simp
  have "set ?page \<subseteq> set ?es"
    by (meson set_take_subset set_drop_subset subset_trans)
  then have "set ?ds \<subseteq> set (concat (map listed_prefix ?es))" by auto
  then have ds: "set ?ds \<subseteq> set (subdirs_of ks p)" by (simp only: subdirs_listing)
  have split: "concat (map listed_prefix (drop seen ?es)) =
               ?ds @ concat (map listed_prefix (drop (seen + ?n) ?es))"
  proof -
    have "concat (map listed_prefix (drop seen ?es)) =
               concat (map listed_prefix (?page @ drop ?n (drop seen ?es)))"
      by (simp only: append_take_drop_id)
    then show ?thesis by (simp add: add.commute)
  qed
  have "\<exists>cs'. iterate_dirs_from rt s3 bucket d (InPage p ?ds ?resp) ys
       \<lparr>world = w, calls = cs @ [Sdk (ClientListObjectsV2 (dirs_request bucket p (token_of seen)))]\<rparr> =
     iterate_dirs_from rt s3 bucket d (InPage p [] ?resp) ?ys1 \<lparr>world = w, calls = cs'\<rparr>"
  proof (rule dirs_for_loop)
    fix sub ys cs assume "sub \<in> set ?ds"
    with ds have "sub \<in> set (subdirs_of ks p)" by blast
    then show "\<exists>cs'. iterate_dirs_from rt s3 bucket (Suc d) (AtPage sub []) ys \<lparr>world = w, calls = cs\<rparr> =
                     Some (ys @ dir_tree ks sub, Inr (), \<lparr>world = w, calls = cs'\<rparr>)"
      by (rule sub)
  next
    assume "?ds \<noteq> []"
    with ds have "subdirs_of ks p \<noteq> []" by auto
    then show "d < recursion_limit rt" by (rule lim)
  qed
  then obtain cs1 where loop:
    "iterate_dirs_from rt s3 bucket d (InPage p ?ds ?resp) ys
       \<lparr>world = w, calls = cs @ [Sdk (ClientListObjectsV2 (dirs_request bucket p (token_of seen)))]\<rparr> =
     iterate_dirs_from rt s3 bucket d (InPage p [] ?resp) ?ys1 \<lparr>world = w, calls = cs1\<rparr>"
    by blast
  have step: "iterate_dirs_from rt s3 bucket d (AtPage p (token_of seen)) ys \<lparr>world = w, calls = cs\<rparr> =
              iterate_dirs_from rt s3 bucket d (InPage p [] ?resp) ?ys1 \<lparr>world = w, calls = cs1\<rparr>"
    unfolding iterate_dirs_from_at_page[of rt s3 bucket d p "token_of seen"] s3_dirs_page[OF b]
    by (simp only: prod.case sum.case response_subdirs_some_unless_empty loop)
  show ?case
  proof (cases ?more)
    case True
    then have "length ?es - (seen + ?n) < length ?es - seen" using n0 by linarith
    from less[OF this, of ?ys1 cs1] obtain cs2 where
      "iterate_dirs_from rt s3 bucket d (AtPage p (token_of (seen + ?n))) ?ys1 \<lparr>world = w, calls = cs1\<rparr> =
         Some (?ys1 @ concat (map (\<lambda>d. d # dir_tree ks d)
                               (concat (map listed_prefix (drop (seen + ?n) ?es)))),
               Inr (), \<lparr>world = w, calls = cs2\<rparr>)"
      by blast
    with True show ?thesis
      unfolding step iterate_dirs_from_page_done split
      by (intro exI[of _ cs2]) simp
  next
    case False
    then have "drop (seen + ?n) ?es = []" by simp
    with False show ?thesis
      unfolding step iterate_dirs_from_page_done split
      by (intro exI[of _ cs1]) simp
  qed
qed

text \<open>
  The whole run: by induction along the tree of directories, the run from a prefix yields
  the directories under it, depth first, and ends, when the runtime has room for the
  recursive calls: as many as the directories under the prefix are nested.
\<close>

lemma iterate_dirs_from_prefix:
  assumes "map_of (buckets w) bucket = Some objects" "ks = map fst objects" "0 < page_limit w"
      and "dir_depth ks p + d \<le> recursion_limit rt"
  shows "\<exists>cs'. iterate_dirs_from rt s3 bucket d (AtPage p []) ys \<lparr>world = w, calls = cs\<rparr> =
           Some (ys @ dir_tree ks p, Inr (), \<lparr>world = w, calls = cs'\<rparr>)"
  using assms
proof (induction ks p arbitrary: ys cs d rule: dir_tree.induct)
  case (1 ks p)
  have t: "dir_tree ks p = concat (map (\<lambda>d. d # dir_tree ks d)
                                 (concat (map listed_prefix (drop 0 (dir_entries ks p)))))"
    by (subst dir_tree.simps) (simp add: subdirs_listing)
  have depth: "Suc (dir_depth ks sub) \<le> recursion_limit rt - d" if "sub \<in> set (subdirs_of ks p)" for sub
    by (rule dir_depth_subdir[OF that]) (use "1.prems"(4) in simp)
  have "\<exists>cs'. iterate_dirs_from rt s3 bucket d (AtPage p (token_of 0)) ys \<lparr>world = w, calls = cs\<rparr> =
           Some (ys @ concat (map (\<lambda>d. d # dir_tree ks d)
                               (concat (map listed_prefix (drop 0 (dir_entries ks p))))),
                 Inr (), \<lparr>world = w, calls = cs'\<rparr>)"
  proof (rule dirs_pages[OF "1.prems"(1,2,3)])
    fix sub ys cs assume sub: "sub \<in> set (subdirs_of ks p)"
    from depth[OF sub] have "dir_depth ks sub + Suc d \<le> recursion_limit rt" by simp
    with sub "1.prems"(1,2,3)
    show "\<exists>cs'. iterate_dirs_from rt s3 bucket (Suc d) (AtPage sub []) ys \<lparr>world = w, calls = cs\<rparr> =
                     Some (ys @ dir_tree ks sub, Inr (), \<lparr>world = w, calls = cs'\<rparr>)"
      by (rule "1.IH")
  next
    assume "subdirs_of ks p \<noteq> []"
    then obtain sub where "sub \<in> set (subdirs_of ks p)" by (cases "subdirs_of ks p") auto
    from depth[OF this] show "d < recursion_limit rt" by simp
  qed
  then show ?case unfolding t[symmetric] by (simp add: token_of_def)
qed

text \<open>
  C5, amended. In the model of the service, for every bucket (a finite list of keys) and
  every prefix, whatever the size of the pages: if no key has more separators after the
  prefix than the runtime has room for recursive calls, the run of \<open>iterate_dirs\<close> ends,
  without an exception, and the sequence it yields is \<open>dir_tree\<close>: the directories directly
  under the prefix in order, each followed at once by the directories under it, before the
  next one. These are all the directories under the prefix: the beginnings of keys that
  extend the prefix and end with the separator.
\<close>

theorem iterate_dirs_depth_first:
  assumes "map_of (buckets w) bucket = Some objects" and "0 < page_limit w"
      and "dir_depth (map fst objects) prefix \<le> recursion_limit rt"
  shows "(\<exists>cs. iterate_dirs rt s3 bucket prefix \<lparr>world = w, calls = []\<rparr> =
            Some (dir_tree (map fst objects) prefix, Inr (), \<lparr>world = w, calls = cs\<rparr>)) \<and>
         set (dir_tree (map fst objects) prefix) =
           {d. \<exists>k\<in>set (map fst objects). \<exists>u t.
                  u \<noteq> [] \<and> last u = CHR ''/'' \<and> d = prefix @ u \<and> k = d @ t}"
proof
  from assms(3) have "dir_depth (map fst objects) prefix + 0 \<le> recursion_limit rt" by simp
  from iterate_dirs_from_prefix[OF assms(1) refl assms(2) this, of "[]" "[]"]
  show "\<exists>cs. iterate_dirs rt s3 bucket prefix \<lparr>world = w, calls = []\<rparr> =
            Some (dir_tree (map fst objects) prefix, Inr (), \<lparr>world = w, calls = cs\<rparr>)"
    by (simp add: iterate_dirs_def)
  show "set (dir_tree (map fst objects) prefix) =
           {d. \<exists>k\<in>set (map fst objects). \<exists>u t.
                  u \<noteq> [] \<and> last u = CHR ''/'' \<and> d = prefix @ u \<and> k = d @ t}"
    by (rule dir_tree_set)
qed

lemma tree_world_dirs:
  "dir_tree [''x/y/z'', ''top'', ''x/w'', ''q/r'', ''x/y/v''] ''x/y/'' = []"
  "dir_tree [''x/y/z'', ''top'', ''x/w'', ''q/r'', ''x/y/v''] ''q/'' = []"
  "dir_tree [''x/y/z'', ''top'', ''x/w'', ''q/r'', ''x/y/v''] ''x/'' = [''x/y/'']"
  "dir_tree [''x/y/z'', ''top'', ''x/w'', ''q/r'', ''x/y/v''] [] = [''q/'', ''x/'', ''x/y/'']"
proof -
  let ?ks = "[''x/y/z'', ''top'', ''x/w'', ''q/r'', ''x/y/v'']"
  show 1: "dir_tree ?ks ''x/y/'' = []"
    by (subst dir_tree.simps) (simp add: subdirs_of_set[OF refl] starts_with_def)
  show 2: "dir_tree ?ks ''q/'' = []"
    by (subst dir_tree.simps) (simp add: subdirs_of_set[OF refl] starts_with_def)
  show 3: "dir_tree ?ks ''x/'' = [''x/y/'']"
    by (subst dir_tree.simps) (simp add: subdirs_of_set[OF refl] starts_with_def 1)
  have "subdirs_of ?ks [] = [''q/'', ''x/'']"
    by (simp add: subdirs_of_set[OF refl] starts_with_def insert_commute)
  then show "dir_tree ?ks [] = [''q/'', ''x/'', ''x/y/'']"
    by (subst dir_tree.simps) (simp add: 2 3)
qed

theorem iterate_dirs_depth_first_witness:
  "dir_depth [''x/y/z'', ''top'', ''x/w'', ''q/r'', ''x/y/v''] '''' = 2 \<and>
   (\<exists>cs. iterate_dirs (python no_codecs) s3 ''tree'' '''' \<lparr>world = tree_world, calls = []\<rparr> =
     Some ([''q/'', ''x/'', ''x/y/''], Inr (), \<lparr>world = tree_world, calls = cs\<rparr>))"
proof -
  have 1: "map_of (buckets tree_world) ''tree'' =
     Some [(''x/y/z'', []), (''top'', []), (''x/w'', []), (''q/r'', []), (''x/y/v'', [])]"
    "0 < page_limit tree_world"
    by (simp_all add: tree_world_def)
  have 2: "dir_depth [''x/y/z'', ''top'', ''x/w'', ''q/r'', ''x/y/v''] '''' = 2"
    by (simp add: dir_depth_def starts_with_def)
  then have 3: "dir_depth (map fst [(''x/y/z'', []::bytes), (''top'', []), (''x/w'', []), (''q/r'', []),
                  (''x/y/v'', [])]) '''' \<le> recursion_limit (python no_codecs)"
    by (simp add: python_def)
  from iterate_dirs_depth_first[OF 1 3, THEN conjunct1] 2 show ?thesis
    by (simp add: tree_world_dirs)
qed

text \<open>
  The claim as it stands fails on a bucket whose directories are nested deeper than the
  interpreter has room for. A key may be 1024 bytes long. With a key of 1024 separators,
  the run yields the directories \<open>/\<close>, \<open>//\<close> and so on, makes one call for each, and ends with
  \<open>RecursionError\<close> where the next recursive call does not fit; with less room than the model
  of the interpreter gives, it ends there earlier.
\<close>

lemma deep_entries:
  assumes "d < n"
  shows "dir_entries [replicate n CHR ''/''] (replicate d CHR ''/'') =
           [PrefixEntry (replicate (Suc d) CHR ''/'')]"
proof -
  from assms obtain m where m: "n - d = Suc m" by (cases "n - d") simp_all
  have "upto_delimiter ''/'' (replicate (n - d) CHR ''/'') = Some ''/''"
    unfolding m by (simp add: starts_with_def)
  moreover have "replicate d CHR ''/'' @ ''/'' = replicate (Suc d) CHR ''/''"
    by (simp add: replicate_append_same)
  ultimately show ?thesis
    using assms by (simp add: dir_entries_def starts_with_def entry_of_def min_def)
qed

lemma slash_first:
  assumes "a < b"
  shows "slash_dirs a b = replicate (Suc a) CHR ''/'' # slash_dirs (Suc a) b"
    and "slash_calls bucket a b =
           Sdk (ClientListObjectsV2 (dirs_request bucket (replicate a CHR ''/'') [])) #
           slash_calls bucket (Suc a) b"
  unfolding slash_dirs_def slash_calls_def upt_conv_Cons[OF assms] by simp_all

lemma slash_none [simp]: "slash_dirs a a = []" "slash_calls bucket a a = []"
  by (simp_all add: slash_dirs_def slash_calls_def)

lemma deep_run:
  assumes b: "map_of (buckets w) bucket = Some [(replicate n CHR ''/'', body)]"
      and pl: "0 < page_limit w"
      and n: "recursion_limit rt < n"
      and d: "d \<le> recursion_limit rt"
  shows "iterate_dirs_from rt s3 bucket d (AtPage (replicate d CHR ''/'') []) ys \<lparr>world = w, calls = cs\<rparr> =
           Some (ys @ slash_dirs d (Suc (recursion_limit rt)), Inl RecursionError,
                 \<lparr>world = w, calls = cs @ slash_calls bucket d (Suc (recursion_limit rt))\<rparr>)"
  using d
proof (induction "recursion_limit rt - d" arbitrary: d ys cs)
  case 0
  then have d: "d = recursion_limit rt" by simp
  have e: "dir_entries [replicate n CHR ''/''] (replicate d CHR ''/'') =
           [PrefixEntry (replicate (Suc d) CHR ''/'')]"
    by (rule deep_entries) (use d n in simp)
  have ks: "[replicate n CHR ''/''] = map fst [(replicate n CHR ''/'', body)]" by simp
  have m: "min 1000 (page_limit w) = Suc (min 999 (page_limit w - 1))" using pl by simp
  show ?case
    unfolding iterate_dirs_from_at_page[of rt s3 bucket d "replicate d CHR ''/''" "[]"]
      s3_dirs_page[OF b ks, of "replicate d CHR ''/''" 0 cs, unfolded token_of_def replicate_0] e m
    using d by (simp add: iterate_dirs_from_subdir response_subdirs_def slash_dirs_def slash_calls_def)
next
  case (Suc x)
  then have lt: "d < recursion_limit rt" by simp
  have e: "dir_entries [replicate n CHR ''/''] (replicate d CHR ''/'') =
           [PrefixEntry (replicate (Suc d) CHR ''/'')]"
    by (rule deep_entries) (use lt n in simp)
  have ks: "[replicate n CHR ''/''] = map fst [(replicate n CHR ''/'', body)]" by simp
  have m: "min 1000 (page_limit w) = Suc (min 999 (page_limit w - 1))" using pl by simp
  have ih: "iterate_dirs_from rt s3 bucket (Suc d) (AtPage (replicate (Suc d) CHR ''/'') [])
              (ys @ [replicate (Suc d) CHR ''/''])
              \<lparr>world = w, calls = cs @ [Sdk (ClientListObjectsV2 (dirs_request bucket (replicate d CHR ''/'') []))]\<rparr> =
           Some ((ys @ [replicate (Suc d) CHR ''/'']) @ slash_dirs (Suc d) (Suc (recursion_limit rt)),
                 Inl RecursionError,
                 \<lparr>world = w,
                    calls = (cs @ [Sdk (ClientListObjectsV2 (dirs_request bucket (replicate d CHR ''/'') []))])
                            @ slash_calls bucket (Suc d) (Suc (recursion_limit rt))\<rparr>)"
    by (rule Suc.hyps(1)) (use Suc.hyps(2) lt in simp_all)
  have up: "d < Suc (recursion_limit rt)" using lt by simp
  show ?case
    unfolding iterate_dirs_from_at_page[of rt s3 bucket d "replicate d CHR ''/''" "[]"]
      s3_dirs_page[OF b ks, of "replicate d CHR ''/''" 0 cs, unfolded token_of_def replicate_0] e m
    using lt ih by (simp add: iterate_dirs_from_subdir response_subdirs_def slash_first[OF up])
qed

theorem iterate_dirs_deep_counterexample:
  "iterate_dirs (python no_codecs) s3 ''deep'' '''' \<lparr>world = deep_world, calls = []\<rparr> =
     Some (slash_dirs 0 1001, Inl RecursionError,
           \<lparr>world = deep_world, calls = slash_calls ''deep'' 0 1001\<rparr>)"
proof -
  have 1: "map_of (buckets deep_world) ''deep'' = Some [(replicate 1024 CHR ''/'', [])]"
    "0 < page_limit deep_world"
    "recursion_limit (python no_codecs) < 1024" "0 \<le> recursion_limit (python no_codecs)"
    "Suc (recursion_limit (python no_codecs)) = 1001"
    by (simp_all add: deep_world_def python_def)
  from deep_run[OF 1(1-4), of "[]" "[]"] show ?thesis
    unfolding iterate_dirs_def 1(5) by simp
qed

text \<open>
  The entries of a listing depend on the set of the keys, not on the order in which the
  bucket holds them, when no two entries have the same name.
\<close>

lemma sort_key_remdups_cong:
  assumes "set xs = set ys" "inj_on f (set xs)"
  shows "sort_key f (remdups xs) = sort_key f (remdups ys)"
proof -
  have inj: "inj_on f (set ys)" using assms by simp
  have "map f (sort_key f (remdups xs)) = map f (sort_key f (remdups ys))"
  proof (rule sorted_distinct_set_unique)
    show "sorted (map f (sort_key f (remdups xs)))" "sorted (map f (sort_key f (remdups ys)))"
      by simp_all
    show "distinct (map f (sort_key f (remdups xs)))"
      using assms(2) by (simp add: distinct_map)
    show "distinct (map f (sort_key f (remdups ys)))"
      using inj by (simp add: distinct_map)
    show "set (map f (sort_key f (remdups xs))) = set (map f (sort_key f (remdups ys)))"
      using assms(1) by simp
  qed
  moreover have "inj_on f (set (sort_key f (remdups xs)) \<union> set (sort_key f (remdups ys)))"
    using assms by simp
  ultimately show ?thesis by (simp only: inj_on_map_eq_map)
qed

lemma demo_entries:
  "dir_entries [''a/b'', ''a/c'', ''d''] [] = [PrefixEntry ''a/'', KeyEntry ''d'']"
  "dir_entries [''a/b'', ''a/c'', ''d''] ''a/'' = [KeyEntry ''a/b'', KeyEntry ''a/c'']"
  by (simp_all add: dir_entries_def entry_of_def starts_with_def)

lemma three_keys_entries:
  assumes "set ks = {''a/b'', ''a/c'', ''d''}"
  shows "dir_entries ks [] = [PrefixEntry ''a/'', KeyEntry ''d'']"
    and "dir_entries ks ''a/'' = [KeyEntry ''a/b'', KeyEntry ''a/c'']"
proof -
  have s: "set ks = set [''a/b'', ''a/c'', ''d'']" using assms by simp
  have same: "dir_entries [''a/b'', ''a/c'', ''d''] p = dir_entries ks p"
    if "inj_on entry_name
          (set (map (entry_of p (Some ''/'')) (filter (\<lambda>k. starts_with k p) [''a/b'', ''a/c'', ''d''])))"
    for p
    unfolding dir_entries_def
  proof (rule sort_key_remdups_cong)
    show "set (map (entry_of p (Some ''/'')) (filter (\<lambda>k. starts_with k p) [''a/b'', ''a/c'', ''d''])) =
          set (map (entry_of p (Some ''/'')) (filter (\<lambda>k. starts_with k p) ks))"
      by (simp only: set_map set_filter s)
  qed (rule that)
  have "dir_entries [''a/b'', ''a/c'', ''d''] [] = dir_entries ks []"
    by (rule same) (simp add: entry_of_def starts_with_def)
  then show "dir_entries ks [] = [PrefixEntry ''a/'', KeyEntry ''d'']"
    by (simp add: demo_entries)
  have "dir_entries [''a/b'', ''a/c'', ''d''] ''a/'' = dir_entries ks ''a/''"
    by (rule same) (simp add: entry_of_def starts_with_def)
  then show "dir_entries ks ''a/'' = [KeyEntry ''a/b'', KeyEntry ''a/c'']"
    by (simp add: demo_entries)
qed

text \<open>
  C4. In the model of the service, for a bucket whose keys are exactly \<open>a/b\<close>, \<open>a/c\<close> and
  \<open>d\<close>, whatever the bodies, the order of the keys in the bucket and the size of the pages,
  and when the runtime has room for one recursive call: the run from the empty prefix
  lists the empty prefix, yields \<open>a/\<close>, lists \<open>a/\<close> in the recursive call, which yields
  nothing, and ends, having yielded \<open>a/\<close> and nothing else. These are all the calls when a
  page holds two entries or more; when a page holds one entry, the recursive call asks
  for the second page of \<open>a/\<close>, and the run ends after the second page of the empty prefix.
  The second part is the recursive call alone, as the run makes it: one level down, after
  the first call, with \<open>a/\<close> yielded.
\<close>

theorem iterate_dirs_three_keys:
  assumes "map_of (buckets w) bucket = Some objects"
      and "set (map fst objects) = {''a/b'', ''a/c'', ''d''}"
      and "0 < page_limit w"
      and "0 < recursion_limit rt"
  shows "iterate_dirs rt s3 bucket '''' \<lparr>world = w, calls = []\<rparr> =
           Some ([''a/''], Inr (),
                 \<lparr>world = w,
                    calls = (if page_limit w = 1
                             then [Sdk (ClientListObjectsV2 (dirs_request bucket '''' '''')),
                                   Sdk (ClientListObjectsV2 (dirs_request bucket ''a/'' '''')),
                                   Sdk (ClientListObjectsV2 (dirs_request bucket ''a/'' ''+'')),
                                   Sdk (ClientListObjectsV2 (dirs_request bucket '''' ''+''))]
                             else [Sdk (ClientListObjectsV2 (dirs_request bucket '''' '''')),
                                   Sdk (ClientListObjectsV2 (dirs_request bucket ''a/'' ''''))])\<rparr>) \<and>
         iterate_dirs_from rt s3 bucket 1 (AtPage ''a/'' '''') [''a/'']
             \<lparr>world = w, calls = [Sdk (ClientListObjectsV2 (dirs_request bucket '''' ''''))]\<rparr> =
           Some ([''a/''], Inr (),
                 \<lparr>world = w,
                    calls = (if page_limit w = 1
                             then [Sdk (ClientListObjectsV2 (dirs_request bucket '''' '''')),
                                   Sdk (ClientListObjectsV2 (dirs_request bucket ''a/'' '''')),
                                   Sdk (ClientListObjectsV2 (dirs_request bucket ''a/'' ''+''))]
                             else [Sdk (ClientListObjectsV2 (dirs_request bucket '''' '''')),
                                   Sdk (ClientListObjectsV2 (dirs_request bucket ''a/'' ''''))])\<rparr>)"
proof -
  let ?ks = "map fst objects"
  note e = three_keys_entries[OF assms(2)]
  note page = s3_dirs_page[OF assms(1) refl]
  have lim: "recursion_limit rt \<noteq> 0" using assms(4) by simp
  show ?thesis
  proof (cases "page_limit w = 1")
    case True
    then have m: "min 1000 (page_limit w) = 1" by simp
    have t: "token_of 0 = []" "token_of 1 = ''+''" "token_of (Suc 0) = ''+''"
      by (simp_all add: token_of_def)
    note p0 = page[of _ 0, unfolded m t]
    note p1 = page[of _ 1, unfolded m t]
    have sub: "iterate_dirs_from rt s3 bucket d (AtPage ''a/'' '''') ys \<lparr>world = w, calls = cs\<rparr> =
           Some (ys, Inr (),
                 \<lparr>world = w,
                    calls = cs @ [Sdk (ClientListObjectsV2 (dirs_request bucket ''a/'' '''')),
                                  Sdk (ClientListObjectsV2 (dirs_request bucket ''a/'' ''+''))]\<rparr>)"
      for d ys cs
      by (simp add: iterate_dirs_from_at_page iterate_dirs_from_page_done response_subdirs_def p0 p1 e t)
    have "iterate_dirs rt s3 bucket '''' \<lparr>world = w, calls = []\<rparr> =
           Some ([''a/''], Inr (),
                 \<lparr>world = w,
                    calls = [Sdk (ClientListObjectsV2 (dirs_request bucket '''' '''')),
                             Sdk (ClientListObjectsV2 (dirs_request bucket ''a/'' '''')),
                             Sdk (ClientListObjectsV2 (dirs_request bucket ''a/'' ''+'')),
                             Sdk (ClientListObjectsV2 (dirs_request bucket '''' ''+''))]\<rparr>)"
      unfolding iterate_dirs_def
      by (simp add: iterate_dirs_from_at_page[of rt s3 bucket 0] iterate_dirs_from_page_done
            iterate_dirs_from_subdir response_subdirs_def p0 p1 e t sub lim)
    with True sub[of 1 "[''a/'']" "[Sdk (ClientListObjectsV2 (dirs_request bucket '''' ''''))]"]
    show ?thesis by simp
  next
    case False
    with assms(3) have m: "2 \<le> min 1000 (page_limit w)" by simp
    from le_Suc_ex[OF m] obtain n where "min 1000 (page_limit w) = 2 + n" ..
    then have n: "min 1000 (page_limit w) = Suc (Suc n)" by simp
    have t: "token_of 0 = []" by (simp add: token_of_def)
    note p0 = page[of _ 0, unfolded t n]
    have sub: "iterate_dirs_from rt s3 bucket d (AtPage ''a/'' '''') ys \<lparr>world = w, calls = cs\<rparr> =
           Some (ys, Inr (),
                 \<lparr>world = w,
                    calls = cs @ [Sdk (ClientListObjectsV2 (dirs_request bucket ''a/'' ''''))]\<rparr>)"
      for d ys cs
      by (simp add: iterate_dirs_from_at_page iterate_dirs_from_page_done response_subdirs_def p0 e)
    have "iterate_dirs rt s3 bucket '''' \<lparr>world = w, calls = []\<rparr> =
           Some ([''a/''], Inr (),
                 \<lparr>world = w,
                    calls = [Sdk (ClientListObjectsV2 (dirs_request bucket '''' '''')),
                             Sdk (ClientListObjectsV2 (dirs_request bucket ''a/'' ''''))]\<rparr>)"
      unfolding iterate_dirs_def
      by (simp add: iterate_dirs_from_at_page[of rt s3 bucket 0] iterate_dirs_from_page_done
            iterate_dirs_from_subdir response_subdirs_def p0 e sub lim)
    with False sub[of 1 "[''a/'']" "[Sdk (ClientListObjectsV2 (dirs_request bucket '''' ''''))]"]
    show ?thesis by simp
  qed
qed

theorem iterate_dirs_three_keys_witness:
  "iterate_dirs (python no_codecs) s3 ''bucket'' '''' \<lparr>world = demo_world, calls = []\<rparr> =
     Some ([''a/''], Inr (),
           \<lparr>world = demo_world,
              calls = [Sdk (ClientListObjectsV2 (dirs_request ''bucket'' '''' '''')),
                       Sdk (ClientListObjectsV2 (dirs_request ''bucket'' ''a/'' ''''))]\<rparr>) \<and>
   iterate_dirs_from (python no_codecs) s3 ''bucket'' 1 (AtPage ''a/'' '''') [''a/'']
       \<lparr>world = demo_world, calls = [Sdk (ClientListObjectsV2 (dirs_request ''bucket'' '''' ''''))]\<rparr> =
     Some ([''a/''], Inr (),
           \<lparr>world = demo_world,
              calls = [Sdk (ClientListObjectsV2 (dirs_request ''bucket'' '''' '''')),
                       Sdk (ClientListObjectsV2 (dirs_request ''bucket'' ''a/'' ''''))]\<rparr>)"
proof -
  have 1: "map_of (buckets demo_world) ''bucket'' = Some [(''a/b'', [104, 105]), (''a/c'', []), (''d'', [])]"
    "set (map fst [(''a/b'', [104, 105::nat]), (''a/c'', []), (''d'', [])]) = {''a/b'', ''a/c'', ''d''}"
    "0 < page_limit demo_world" "0 < recursion_limit (python no_codecs)"
    by (simp_all add: demo_world_def python_def)
  have 2: "page_limit demo_world \<noteq> 1" by (simp add: demo_world_def)
  from iterate_dirs_three_keys[OF 1] 2 show ?thesis by simp
qed

end
